(* ===== verification/Prelude.thy ===== *)
theory Prelude
  imports Main "HOL-Library.Word" "HOL-Library.AList"
begin

text \<open>
  Shared vocabulary of the development: the types of bytes, code points and
  Python strings, the Python exceptions the two scripts can raise, the result
  type of a loop iteration (an exception carries the state in which it
  propagated), and generic list lemmas used by the component theories.
\<close>

section \<open>Types\<close>

text \<open>A byte read from the serial device (\<^verbatim>\<open>bytes\<close> element).\<close>
type_synonym byte = "8 word"

text \<open>
  A Python \<^verbatim>\<open>str\<close> is a sequence of Unicode code points; a code point is a
  natural number (the strict UTF-8 codec only produces and accepts scalar
  values, see \<open>is_scalar\<close>).
\<close>
type_synonym ustr = "nat list"

text \<open>The Python exceptions that reach the modelled code.\<close>
datatype py_exc =
    UnicodeDecodeError   \<comment> \<open>\<^verbatim>\<open>bytes.decode('utf-8')\<close> on a malformed byte sequence\<close>
  | JSONDecodeError      \<comment> \<open>\<^verbatim>\<open>json.loads\<close> on text that is not a JSON document\<close>
  | RecursionError       \<comment> \<open>\<^verbatim>\<open>json.loads\<close> nesting deeper than the interpreter allows\<close>
  | ValueError           \<comment> \<open>\<^verbatim>\<open>json.loads\<close> on an integer literal over the digit limit\<close>

text \<open>
  Result of running a piece of a script: \<open>Inr s\<close> is normal completion in
  state \<open>s\<close>; \<open>Inl (e, s)\<close> is an uncaught exception \<open>e\<close> that terminates the
  process, with \<open>s\<close> the state it leaves behind (after the cleanup of any
  enclosing \<^verbatim>\<open>with\<close> block).
\<close>
type_synonym 's outcome = "(py_exc \<times> 's) + 's"

text \<open>The state a run ends in, normally or by an exception.\<close>
definition final_state :: "'s outcome \<Rightarrow> 's" where
  "final_state r = (case r of Inl (e, s) \<Rightarrow> s | Inr s \<Rightarrow> s)"

section \<open>Literals\<close>

text \<open>
  Isabelle strings are lists of 8-bit \<open>char\<close>s. For ASCII text the code
  points and the bytes are the character codes; these two functions turn a
  literal such as \<open>''null''\<close> into a Python string or into bytes.
\<close>
definition ustr_of :: "string \<Rightarrow> ustr" where
  "ustr_of s = map of_char s"

definition bytes_of :: "string \<Rightarrow> byte list" where
  "bytes_of s = map (\<lambda>c. of_nat (of_char c)) s"

named_theorems literal_simps "unfolding of string literals into code points or bytes"

declare ustr_of_def [literal_simps] bytes_of_def [literal_simps]

section \<open>Generic lemmas\<close>

lemma ustr_of_append [simp]: "ustr_of (s @ t) = ustr_of s @ ustr_of t"
  by (simp add: ustr_of_def)

lemma length_ustr_of [simp]: "length (ustr_of s) = length s"
  by (simp add: ustr_of_def)

lemma final_state_simps [simp]:
  "final_state (Inl (e, s)) = s"
  "final_state (Inr s) = s"
  by (simp_all add: final_state_def)

lemma unat_byte_less [simp]: "unat (b :: byte) < 256"
  using unsigned_less [of b] by simp

lemma unat_of_nat_byte [simp]: "n < 256 \<Longrightarrow> unat (of_nat n :: byte) = n"
  by (simp add: unat_of_nat)

lemma map_of_nat_unat [simp]: "map (of_nat \<circ> unat) (bs :: byte list) = bs"
  by (induction bs) auto

lemma byte_eq_iff_unat: "(a :: byte) = b \<longleftrightarrow> unat a = unat b"
  by (simp add: word_unat_eq_iff)

text \<open>The length of the part of a list before its first occurrence of \<open>x\<close>.\<close>

lemma takeWhile_neq_append_eq:
  "x \<notin> set xs \<Longrightarrow> takeWhile (\<lambda>y. y \<noteq> x) (xs @ x # ys) = xs"
  by (induction xs) auto

lemma dropWhile_neq_append_eq:
  "x \<notin> set xs \<Longrightarrow> dropWhile (\<lambda>y. y \<noteq> x) (xs @ x # ys) = x # ys"
  by (induction xs) auto

lemma dropWhile_all_append: "list_all P xs \<Longrightarrow> dropWhile P (xs @ ys) = dropWhile P ys"
  by (induction xs) auto

lemma last_dropWhile: "dropWhile P xs \<noteq> [] \<Longrightarrow> last (dropWhile P xs) = last xs"
  by (induction xs) auto

end
