(* ===== verification/Utf8.thy ===== *)
theory Utf8
  imports Prelude
begin

text \<open>
  The strict UTF-8 codec of CPython, which both scripts call as
  \<^verbatim>\<open>ser.readline().decode('utf-8')\<close> (serial_to_telegraf.py line 15,
  unoflow.py line 44), and whose encoder writes the log file and the HTTP body.
  The decoder accepts exactly the well-formed sequences of the Unicode
  standard (Table 3-7): no overlong forms, no surrogates, nothing above
  U+10FFFF; any other byte sequence raises \<^verbatim>\<open>UnicodeDecodeError\<close>,
  modelled as \<open>None\<close>. The encoder refuses surrogates (\<^verbatim>\<open>UnicodeEncodeError\<close>).
  The two are proved inverse in both directions.
\<close>

section \<open>Definitions\<close>

definition is_scalar :: "nat \<Rightarrow> bool" where
  "is_scalar c \<longleftrightarrow> c < 0x110000 \<and> \<not> (0xD800 \<le> c \<and> c \<le> 0xDFFF)"

text \<open>
  A lead byte \<open>\<ge> 0x80\<close> determines the number \<open>k\<close> of continuation bytes
  and the admissible range \<open>[lo, hi]\<close> of the first of them; the other
  continuation bytes range over \<open>[0x80, 0xBF]\<close>.
\<close>
definition utf8_lead :: "nat \<Rightarrow> (nat \<times> nat \<times> nat) option" where
  "utf8_lead c =
     (if 0xC2 \<le> c \<and> c \<le> 0xDF then Some (1, 0x80, 0xBF)
      else if c = 0xE0 then Some (2, 0xA0, 0xBF)
      else if 0xE1 \<le> c \<and> c \<le> 0xEC then Some (2, 0x80, 0xBF)
      else if c = 0xED then Some (2, 0x80, 0x9F)
      else if 0xEE \<le> c \<and> c \<le> 0xEF then Some (2, 0x80, 0xBF)
      else if c = 0xF0 then Some (3, 0x90, 0xBF)
      else if 0xF1 \<le> c \<and> c \<le> 0xF3 then Some (3, 0x80, 0xBF)
      else if c = 0xF4 then Some (3, 0x80, 0x8F)
      else None)"

fun utf8_conts_ok :: "nat \<Rightarrow> nat \<Rightarrow> nat list \<Rightarrow> bool" where
  "utf8_conts_ok lo hi [] = True"
| "utf8_conts_ok lo hi (b # bs) = (lo \<le> b \<and> b \<le> hi \<and> list_all (\<lambda>x. 0x80 \<le> x \<and> x \<le> 0xBF) bs)"

text \<open>The code point of a lead byte followed by its continuation bytes.\<close>
definition utf8_value :: "nat \<Rightarrow> nat \<Rightarrow> nat list \<Rightarrow> nat" where
  "utf8_value c k bs = foldl (\<lambda>acc b. acc * 64 + b mod 64) (c mod 2 ^ (6 - k)) bs"

function utf8_decode :: "byte list \<Rightarrow> ustr option" where
  "utf8_decode [] = Some []"
| "utf8_decode (b # bs) =
     (if unat b < 0x80 then map_option (Cons (unat b)) (utf8_decode bs)
      else (case utf8_lead (unat b) of
              None \<Rightarrow> None
            | Some (k, lo, hi) \<Rightarrow>
                if k \<le> length bs \<and> utf8_conts_ok lo hi (map unat (take k bs))
                then map_option (Cons (utf8_value (unat b) k (map unat (take k bs))))
                       (utf8_decode (drop k bs))
                else None))"
  by pat_completeness auto
termination
  by (relation "measure length") auto

definition utf8_encode_char :: "nat \<Rightarrow> byte list" where
  "utf8_encode_char c =
     (if c < 0x80 then [of_nat c]
      else if c < 0x800 then [of_nat (0xC0 + c div 64), of_nat (0x80 + c mod 64)]
      else if c < 0x10000 then
        [of_nat (0xE0 + c div 4096), of_nat (0x80 + c div 64 mod 64), of_nat (0x80 + c mod 64)]
      else [of_nat (0xF0 + c div 262144), of_nat (0x80 + c div 4096 mod 64),
            of_nat (0x80 + c div 64 mod 64), of_nat (0x80 + c mod 64)])"

text \<open>Text made of ASCII code points only; its UTF-8 encoding is one byte per character.\<close>
definition is_ascii :: "ustr \<Rightarrow> bool" where
  "is_ascii t \<longleftrightarrow> list_all (\<lambda>c. c < 0x80) t"

definition utf8_encode :: "ustr \<Rightarrow> byte list option" where
  "utf8_encode cs =
     (if list_all is_scalar cs then Some (concat (map utf8_encode_char cs)) else None)"

section \<open>Arithmetic of the byte layout\<close>

lemma mod_64_offset: "(128 + x) mod 64 = (x::nat) mod 64"
  by (subst mod_add_left_eq [symmetric]) simp

lemma lead_mod_2: "x < 32 \<Longrightarrow> (192 + x) mod 32 = (x::nat)"
  by (subst mod_add_left_eq [symmetric]) simp

lemma lead_mod_3: "x < 16 \<Longrightarrow> (224 + x) mod 16 = (x::nat)"
  by (subst mod_add_left_eq [symmetric]) simp

lemma lead_mod_4: "x < 8 \<Longrightarrow> (240 + x) mod 8 = (x::nat)"
  by (subst mod_add_left_eq [symmetric]) simp

lemma div_4096: "(c::nat) div 4096 = c div 64 div 64"
  by (simp add: div_mult2_eq [symmetric])

lemma div_262144: "(c::nat) div 262144 = c div 64 div 64 div 64"
  by (simp add: div_mult2_eq [symmetric])

lemma div64_step: "r < 64 \<Longrightarrow> (q * 64 + r) div 64 = (q::nat)"
  by simp

lemma mod64_step: "r < 64 \<Longrightarrow> (q * 64 + r) mod 64 = (r::nat)"
  by simp

lemma base64_3: "4096 * (c div 64 div 64) + c div 64 mod 64 * 64 + c mod 64 = (c::nat)"
  using div_mult_mod_eq [of "c div 64" 64] div_mult_mod_eq [of c 64] by linarith

lemma base64_4:
  "262144 * (c div 64 div 64 div 64) + c div 64 div 64 mod 64 * 4096 + c div 64 mod 64 * 64
     + c mod 64 = (c::nat)"
  using div_mult_mod_eq [of "c div 64 div 64" 64] base64_3 [of c] by linarith

lemma map_unat_of_nat:
  "list_all (\<lambda>y. y < 256) ys \<Longrightarrow> map (unat \<circ> (of_nat :: nat \<Rightarrow> byte)) ys = ys"
  by (induction ys) auto

section \<open>Decoding after encoding\<close>

lemma utf8_decode_of_nat:
  assumes "x < 256" "0x80 \<le> x" "utf8_lead x = Some (k, lo, hi)"
    "list_all (\<lambda>y. y < 256) ys" "length ys = k" "utf8_conts_ok lo hi ys"
  shows "utf8_decode (of_nat x # map of_nat ys @ rest) =
           map_option (Cons (utf8_value x k ys)) (utf8_decode rest)"
  using assms by (simp add: map_unat_of_nat)

lemma utf8_decode_encode_1:
  assumes "c < 0x80"
  shows "utf8_decode (utf8_encode_char c @ rest) = map_option (Cons c) (utf8_decode rest)"
  using assms by (simp add: utf8_encode_char_def)

lemma utf8_decode_encode_2:
  assumes "0x80 \<le> c" "c < 0x800"
  shows "utf8_decode (utf8_encode_char c @ rest) = map_option (Cons c) (utf8_decode rest)"
proof -
  let ?b0 = "0xC0 + c div 64" and ?b1 = "0x80 + c mod 64"
  have a: "2 \<le> c div 64" "c div 64 < 32" using assms by auto
  have e: "utf8_encode_char c = of_nat ?b0 # map of_nat [?b1] @ []"
    using assms by (simp add: utf8_encode_char_def)
  have l: "utf8_lead ?b0 = Some (1, 0x80, 0xBF)"
    using a by (simp add: utf8_lead_def)
  have v: "utf8_value ?b0 1 [?b1] = c"
    using a by (simp add: utf8_value_def mod_64_offset lead_mod_2)
  have "utf8_decode (of_nat ?b0 # map of_nat [?b1] @ rest) =
      map_option (Cons (utf8_value ?b0 1 [?b1])) (utf8_decode rest)"
    using a l by (intro utf8_decode_of_nat) auto
  then show ?thesis unfolding e v by simp
qed

lemma utf8_decode_encode_3:
  assumes "0x800 \<le> c" "c < 0x10000" "\<not> (0xD800 \<le> c \<and> c \<le> 0xDFFF)"
  shows "utf8_decode (utf8_encode_char c @ rest) = map_option (Cons c) (utf8_decode rest)"
proof -
  let ?b0 = "0xE0 + c div 4096" and ?b1 = "0x80 + c div 64 mod 64" and ?b2 = "0x80 + c mod 64"
  have a: "c div 4096 < 16" using assms by auto
  have f1: "c div 4096 = 0 \<Longrightarrow> 32 \<le> c div 64 mod 64" using assms(1) div_4096 by auto
  have f2: "c div 64 mod 64 < 32" if "c div 4096 = 13"
  proof -
    have "c < 55296" using assms(3) that by auto
    then have "c div 64 < 864" by auto
    moreover have "c div 64 = 13 * 64 + c div 64 mod 64"
      using that div_4096 div_mult_mod_eq [of "c div 64" 64] by simp
    ultimately show ?thesis by linarith
  qed
  have e: "utf8_encode_char c = of_nat ?b0 # map of_nat [?b1, ?b2] @ []"
    using assms by (simp add: utf8_encode_char_def)
  have v: "utf8_value ?b0 2 [?b1, ?b2] = c"
    using a by (simp add: utf8_value_def mod_64_offset div_4096 base64_3 lead_mod_3)
  have "\<exists>lo hi. utf8_lead ?b0 = Some (2, lo, hi) \<and> utf8_conts_ok lo hi [?b1, ?b2]"
    using a f1 f2 by (auto simp: utf8_lead_def)
  then obtain lo hi where "utf8_lead ?b0 = Some (2, lo, hi)" "utf8_conts_ok lo hi [?b1, ?b2]"
    by blast
  then have "utf8_decode (of_nat ?b0 # map of_nat [?b1, ?b2] @ rest) =
      map_option (Cons (utf8_value ?b0 2 [?b1, ?b2])) (utf8_decode rest)"
    using a by (intro utf8_decode_of_nat) auto
  then show ?thesis unfolding e v by simp
qed

lemma utf8_decode_encode_4:
  assumes "0x10000 \<le> c" "c < 0x110000"
  shows "utf8_decode (utf8_encode_char c @ rest) = map_option (Cons c) (utf8_decode rest)"
proof -
  let ?b0 = "0xF0 + c div 262144" and ?b1 = "0x80 + c div 4096 mod 64"
    and ?b2 = "0x80 + c div 64 mod 64" and ?b3 = "0x80 + c mod 64"
  have a: "c div 262144 < 5" using assms by auto
  have f1: "c div 262144 = 0 \<Longrightarrow> 16 \<le> c div 4096 mod 64"
    using assms(1) div_262144 div_4096 by auto
  have f2: "c div 4096 mod 64 < 16" if "c div 262144 = 4"
  proof -
    have "c div 4096 < 272" using assms(2) by auto
    moreover have "c div 4096 = 4 * 64 + c div 4096 mod 64"
      using that div_262144 div_4096 div_mult_mod_eq [of "c div 4096" 64] by simp
    ultimately show ?thesis by linarith
  qed
  have e: "utf8_encode_char c = of_nat ?b0 # map of_nat [?b1, ?b2, ?b3] @ []"
    using assms by (simp add: utf8_encode_char_def)
  have v: "utf8_value ?b0 3 [?b1, ?b2, ?b3] = c"
    using a by (simp add: utf8_value_def mod_64_offset div_4096 div_262144 base64_4 lead_mod_4)
  have "\<exists>lo hi. utf8_lead ?b0 = Some (3, lo, hi) \<and> utf8_conts_ok lo hi [?b1, ?b2, ?b3]"
    using a f1 f2 by (auto simp: utf8_lead_def)
  then obtain lo hi where "utf8_lead ?b0 = Some (3, lo, hi)" "utf8_conts_ok lo hi [?b1, ?b2, ?b3]"
    by blast
  then have "utf8_decode (of_nat ?b0 # map of_nat [?b1, ?b2, ?b3] @ rest) =
      map_option (Cons (utf8_value ?b0 3 [?b1, ?b2, ?b3])) (utf8_decode rest)"
    using a by (intro utf8_decode_of_nat) auto
  then show ?thesis unfolding e v by simp
qed

lemma utf8_decode_encode_char:
  "is_scalar c \<Longrightarrow>
     utf8_decode (utf8_encode_char c @ rest) = map_option (Cons c) (utf8_decode rest)"
  unfolding is_scalar_def
  using utf8_decode_encode_1 utf8_decode_encode_2 utf8_decode_encode_3 utf8_decode_encode_4
  by (meson not_less)

text \<open>C12. Decoding undoes encoding: every byte string the strict encoder produces
  decodes back to the code points it came from.\<close>
theorem utf8_decode_encode: "utf8_encode cs = Some bs \<Longrightarrow> utf8_decode bs = Some cs"
proof (induction cs arbitrary: bs)
  case Nil
  then show ?case by (simp add: utf8_encode_def)
next
  case (Cons c cs)
  then have "is_scalar c" "utf8_encode cs = Some (concat (map utf8_encode_char cs))"
    and bs: "bs = utf8_encode_char c @ concat (map utf8_encode_char cs)"
    by (auto simp: utf8_encode_def split: if_splits)
  with Cons.IH show ?case by (simp add: utf8_decode_encode_char)
qed

section \<open>Encoding after decoding\<close>

lemma utf8_encode_value_2:
  assumes "0xC2 \<le> x" "x \<le> 0xDF" "0x80 \<le> y" "y \<le> 0xBF"
  shows "is_scalar (utf8_value x 1 [y]) \<and> utf8_encode_char (utf8_value x 1 [y]) = [of_nat x, of_nat y]"
proof -
  define a where "a = x - 192"
  define b where "b = y - 128"
  have r: "x = 192 + a" "y = 128 + b" "2 \<le> a" "a < 32" "b < 64"
    using assms by (auto simp: a_def b_def)
  then show ?thesis
    by (simp add: utf8_value_def is_scalar_def utf8_encode_char_def lead_mod_2 mod_64_offset)
qed

lemma utf8_encode_value_3:
  assumes "0xE0 \<le> x" "x \<le> 0xEF" "0x80 \<le> y" "y \<le> 0xBF" "0x80 \<le> z" "z \<le> 0xBF"
    "x = 0xE0 \<Longrightarrow> 0xA0 \<le> y" "x = 0xED \<Longrightarrow> y \<le> 0x9F"
  shows "is_scalar (utf8_value x 2 [y, z]) \<and>
         utf8_encode_char (utf8_value x 2 [y, z]) = [of_nat x, of_nat y, of_nat z]"
proof -
  define a where "a = x - 224"
  define b where "b = y - 128"
  define d where "d = z - 128"
  have r: "x = 224 + a" "y = 128 + b" "z = 128 + d" "a < 16" "b < 64" "d < 64"
    using assms by (auto simp: a_def b_def d_def)
  have c: "a = 0 \<Longrightarrow> 32 \<le> b" "a = 13 \<Longrightarrow> b < 32"
    using assms unfolding a_def b_def by (cases "x = 224"; cases "x = 237"; simp)+
  define v where "v = (a * 64 + b) * 64 + d"
  have v: "utf8_value x 2 [y, z] = v"
    using r by (simp add: utf8_value_def v_def lead_mod_3 mod_64_offset)
  have dv: "v mod 64 = d" "v div 64 mod 64 = b" "v div 4096 = a"
    unfolding v_def div_4096 using r by (simp_all only: div64_step mod64_step)
  have "2048 \<le> v" "v < 65536"
    using r c by (cases "a = 0"; simp add: v_def)+
  moreover have "\<not> (55296 \<le> v \<and> v \<le> 57343)"
    using r c by (cases "a = 13"; cases "a < 13"; simp add: v_def)
  ultimately show ?thesis
    unfolding v using r by (simp add: is_scalar_def utf8_encode_char_def dv)
qed

lemma utf8_encode_value_4:
  assumes "0xF0 \<le> x" "x \<le> 0xF4" "0x80 \<le> y" "y \<le> 0xBF" "0x80 \<le> z" "z \<le> 0xBF"
    "0x80 \<le> w" "w \<le> 0xBF" "x = 0xF0 \<Longrightarrow> 0x90 \<le> y" "x = 0xF4 \<Longrightarrow> y \<le> 0x8F"
  shows "is_scalar (utf8_value x 3 [y, z, w]) \<and>
         utf8_encode_char (utf8_value x 3 [y, z, w]) = [of_nat x, of_nat y, of_nat z, of_nat w]"
proof -
  define a where "a = x - 240"
  define b where "b = y - 128"
  define d where "d = z - 128"
  define e where "e = w - 128"
  have r: "x = 240 + a" "y = 128 + b" "z = 128 + d" "w = 128 + e" "a < 5" "b < 64" "d < 64"
    "e < 64"
    using assms by (auto simp: a_def b_def d_def e_def)
  have c: "a = 0 \<Longrightarrow> 16 \<le> b" "a = 4 \<Longrightarrow> b < 16"
    using assms unfolding a_def b_def by (cases "x = 240"; cases "x = 244"; simp)+
  define v where "v = ((a * 64 + b) * 64 + d) * 64 + e"
  have v: "utf8_value x 3 [y, z, w] = v"
    using r by (simp add: utf8_value_def v_def lead_mod_4 mod_64_offset)
  have dv: "v mod 64 = e" "v div 64 mod 64 = d" "v div 4096 mod 64 = b" "v div 262144 = a"
    unfolding v_def div_4096 div_262144 using r by (simp_all only: div64_step mod64_step)
  have "65536 \<le> v" "v < 1114112"
    using r c by (cases "a = 0"; cases "a = 4"; simp add: v_def)+
  then show ?thesis
    unfolding v using r by (simp add: is_scalar_def utf8_encode_char_def dv)
qed


lemma utf8_lead_cases:
  assumes "utf8_lead x = Some (k, lo, hi)"
  shows "k = 1 \<and> 0xC2 \<le> x \<and> x \<le> 0xDF \<and> lo = 0x80 \<and> hi = 0xBF \<or>
         k = 2 \<and> 0xE0 \<le> x \<and> x \<le> 0xEF \<and> 0x80 \<le> lo \<and> hi \<le> 0xBF \<and>
           (x = 0xE0 \<longrightarrow> lo = 0xA0) \<and> (x = 0xED \<longrightarrow> hi = 0x9F) \<or>
         k = 3 \<and> 0xF0 \<le> x \<and> x \<le> 0xF4 \<and> 0x80 \<le> lo \<and> hi \<le> 0xBF \<and>
           (x = 0xF0 \<longrightarrow> lo = 0x90) \<and> (x = 0xF4 \<longrightarrow> hi = 0x8F)"
  using assms unfolding utf8_lead_def by (simp split: if_splits)

lemma length_eq_2: "length xs = 2 \<Longrightarrow> \<exists>a b. xs = [a, b]"
  by (auto simp: numeral_2_eq_2 length_Suc_conv)

lemma length_eq_3: "length xs = 3 \<Longrightarrow> \<exists>a b c. xs = [a, b, c]"
  by (auto simp: numeral_3_eq_3 length_Suc_conv)

lemma utf8_lead_encode:
  assumes "utf8_lead x = Some (k, lo, hi)" "length ys = k" "utf8_conts_ok lo hi ys"
  shows "is_scalar (utf8_value x k ys) \<and> utf8_encode_char (utf8_value x k ys) = of_nat x # map of_nat ys"
  using utf8_lead_cases [OF assms(1)]
proof (elim disjE conjE)
  assume "k = 1" "0xC2 \<le> x" "x \<le> 0xDF" "lo = 0x80" "hi = 0xBF"
  moreover obtain y where "ys = [y]" using assms(2) \<open>k = 1\<close> by (cases ys) auto
  ultimately show ?thesis using assms(3) utf8_encode_value_2 [of x y] by simp
next
  assume "k = 2" "0xE0 \<le> x" "x \<le> 0xEF" "0x80 \<le> lo" "hi \<le> 0xBF"
    "x = 0xE0 \<longrightarrow> lo = 0xA0" "x = 0xED \<longrightarrow> hi = 0x9F"
  moreover obtain y z where "ys = [y, z]" using assms(2) \<open>k = 2\<close> length_eq_2 by blast
  ultimately have "is_scalar (utf8_value x 2 [y, z]) \<and>
      utf8_encode_char (utf8_value x 2 [y, z]) = [of_nat x, of_nat y, of_nat z]"
    using assms(3) by (intro utf8_encode_value_3) auto
  then show ?thesis using \<open>k = 2\<close> \<open>ys = [y, z]\<close> by simp
next
  assume "k = 3" "0xF0 \<le> x" "x \<le> 0xF4" "0x80 \<le> lo" "hi \<le> 0xBF"
    "x = 0xF0 \<longrightarrow> lo = 0x90" "x = 0xF4 \<longrightarrow> hi = 0x8F"
  moreover obtain y z w where "ys = [y, z, w]" using assms(2) \<open>k = 3\<close> length_eq_3 by blast
  ultimately have "is_scalar (utf8_value x 3 [y, z, w]) \<and>
      utf8_encode_char (utf8_value x 3 [y, z, w]) = [of_nat x, of_nat y, of_nat z, of_nat w]"
    using assms(3) by (intro utf8_encode_value_4) auto
  then show ?thesis using \<open>k = 3\<close> \<open>ys = [y, z, w]\<close> by simp
qed

text \<open>The strict decoder returns Unicode scalar values only.\<close>
lemma utf8_decode_scalar: "utf8_decode bs = Some cs \<Longrightarrow> list_all is_scalar cs"
proof (induction bs arbitrary: cs rule: utf8_decode.induct)
  case (2 b bs)
  show ?case
  proof (cases "unat b < 0x80")
    case True
    with "2.prems" "2.IH"(1) [OF True] show ?thesis by (auto simp: is_scalar_def)
  next
    case False
    with "2.prems" obtain k lo hi cs' where l: "utf8_lead (unat b) = Some (k, lo, hi)"
      and ok: "k \<le> length bs" "utf8_conts_ok lo hi (map unat (take k bs))"
      and r: "utf8_decode (drop k bs) = Some cs'"
      and cs: "cs = utf8_value (unat b) k (map unat (take k bs)) # cs'"
      by (auto split: option.splits if_splits)
    have "list_all is_scalar cs'" using "2.IH"(2) [OF False l refl refl] ok r by blast
    with utf8_lead_encode [OF l _ ok(2)] ok(1) cs show ?thesis by simp
  qed
qed simp

text \<open>C13. Encoding undoes decoding: a byte string the strict decoder accepts (what
  \<^verbatim>\<open>bytes.decode('utf-8')\<close> returns without raising) is exactly the encoding
  of the code points it decodes to, which are all scalar values.\<close>
theorem utf8_encode_decode: "utf8_decode bs = Some cs \<Longrightarrow> utf8_encode cs = Some bs"
proof (induction bs arbitrary: cs rule: utf8_decode.induct)
  case 1
  then show ?case by (simp add: utf8_encode_def)
next
  case (2 b bs)
  show ?case
  proof (cases "unat b < 0x80")
    case True
    with "2.prems" obtain cs' where d: "utf8_decode bs = Some cs'" and cs: "cs = unat b # cs'"
      by auto
    have "utf8_encode cs' = Some bs" using "2.IH"(1) [OF True d] .
    then have "list_all is_scalar cs'" "concat (map utf8_encode_char cs') = bs"
      by (simp_all add: utf8_encode_def split: if_splits)
    moreover have "is_scalar (unat b)" "utf8_encode_char (unat b) = [b]"
      using True by (simp_all add: is_scalar_def utf8_encode_char_def)
    ultimately show ?thesis using cs by (simp add: utf8_encode_def)
  next
    case False
    with "2.prems" obtain k lo hi cs' where l: "utf8_lead (unat b) = Some (k, lo, hi)"
      and ok: "k \<le> length bs" "utf8_conts_ok lo hi (map unat (take k bs))"
      and r: "utf8_decode (drop k bs) = Some cs'"
      and cs: "cs = utf8_value (unat b) k (map unat (take k bs)) # cs'"
      by (auto split: option.splits if_splits)
    have "utf8_encode cs' = Some (drop k bs)"
      using "2.IH"(2) [OF False l refl refl] ok r by blast
    moreover have "is_scalar (utf8_value (unat b) k (map unat (take k bs))) \<and>
        utf8_encode_char (utf8_value (unat b) k (map unat (take k bs))) = b # take k bs"
      using utf8_lead_encode [OF l _ ok(2)] ok(1) by simp
    ultimately show ?thesis using cs
      by (auto simp: utf8_encode_def split: if_splits)
  qed
qed

section \<open>ASCII text and concatenation\<close>

lemma is_ascii_simps [simp]:
  "is_ascii []"
  "is_ascii (c # t) \<longleftrightarrow> c < 0x80 \<and> is_ascii t"
  "is_ascii (t @ u) \<longleftrightarrow> is_ascii t \<and> is_ascii u"
  by (simp_all add: is_ascii_def)

lemma is_ascii_take_drop [intro]:
  "is_ascii t \<Longrightarrow> is_ascii (take n t)"
  "is_ascii t \<Longrightarrow> is_ascii (drop n t)"
  by (auto simp: is_ascii_def list_all_iff dest: in_set_takeD in_set_dropD)

lemma is_ascii_replicate [simp]: "is_ascii (replicate n c) \<longleftrightarrow> n = 0 \<or> c < 0x80"
  by (induction n) auto

lemma is_ascii_concat [simp]: "is_ascii (concat ts) \<longleftrightarrow> list_all is_ascii ts"
  by (induction ts) auto

lemma utf8_encode_ascii: "is_ascii t \<Longrightarrow> utf8_encode t = Some (map of_nat t)"
proof -
  assume a: "is_ascii t"
  then have "list_all is_scalar t" by (auto simp: is_ascii_def is_scalar_def list_all_iff)
  moreover have "concat (map utf8_encode_char t) = map of_nat t"
    using a by (induction t) (auto simp: is_ascii_def utf8_encode_char_def)
  ultimately show ?thesis by (simp add: utf8_encode_def)
qed

lemma utf8_decode_ascii: "is_ascii t \<Longrightarrow> utf8_decode (map of_nat t) = Some t"
  by (induction t) auto

lemma utf8_decode_append:
  "utf8_decode xs = Some a \<Longrightarrow> utf8_decode (xs @ ys) = map_option ((@) a) (utf8_decode ys)"
proof (induction xs arbitrary: a rule: utf8_decode.induct)
  case 1
  then show ?case by (simp add: option.map_ident)
next
  case (2 b bs)
  show ?case
  proof (cases "unat b < 0x80")
    case True
    with "2.prems" obtain a' where "utf8_decode bs = Some a'" "a = unat b # a'" by auto
    with True "2.IH"(1) show ?thesis by (simp add: option.map_comp comp_def)
  next
    case False
    with "2.prems" obtain k lo hi where
      lead: "utf8_lead (unat b) = Some (k, lo, hi)"
      and ok: "k \<le> length bs \<and> utf8_conts_ok lo hi (map unat (take k bs))"
      by (auto split: option.splits if_splits)
    with False "2.prems" obtain a' where
      r: "utf8_decode (drop k bs) = Some a'"
      and a: "a = utf8_value (unat b) k (map unat (take k bs)) # a'"
      by (auto split: if_splits)
    from ok have "take k (bs @ ys) = take k bs" "drop k (bs @ ys) = drop k bs @ ys" by simp_all
    with False lead ok r a "2.IH"(2) [OF False lead refl refl] show ?thesis
      by (simp add: option.map_comp comp_def)
  qed
qed

section \<open>Examples\<close>

theorem utf8_decode_encode_witness: "utf8_decode [0xC3, 0xA9, 0xF0, 0x9F, 0x98, 0x80] = Some [0xE9, 0x1F600]"
  using utf8_decode_encode [of "[0xE9, 0x1F600]"]
  by (simp add: utf8_encode_def utf8_encode_char_def is_scalar_def)

theorem utf8_encode_decode_witness: "utf8_encode [0xE9, 0x41] = Some [0xC3, 0xA9, 0x41]"
  using utf8_encode_decode [of "[0xC3, 0xA9, 0x41]" "[0xE9, 0x41]"]
  by (simp add: utf8_lead_def utf8_value_def)

end
