(* ===== verification/Serial.thy ===== *)
theory Serial
  imports Utf8
begin

text \<open>
  The serial reader shared by both scripts: the driver's input buffer, the
  pyserial calls \<^verbatim>\<open>ser.in_waiting\<close> and \<^verbatim>\<open>ser.readline()\<close>, and the
  \<^verbatim>\<open>str.strip()\<close> applied to every decoded line. The device is the
  environment: it appends bytes to the buffer (\<open>Recv\<close> events) between
  iterations of a script's \<^verbatim>\<open>while True\<close> loop (\<open>Iter\<close> events).
  \<^verbatim>\<open>readline\<close> comes in two variants: with \<^verbatim>\<open>timeout=2\<close>
  (serial_to_telegraf.py line 11) a read that finds no newline returns the
  bytes it has; with no timeout (unoflow.py line 6) it blocks until a newline
  arrives.
\<close>

section \<open>Events of the environment\<close>

text \<open>
  \<open>Recv bs\<close>: the device sends \<open>bs\<close>; \<open>Iter r\<close>: the script runs one iteration of its
  main loop, with \<open>r\<close> the answers of the rest of the environment to the calls that
  iteration makes (the HTTP outcome for the forwarder, nothing for the logger).
\<close>
datatype 'r event = Recv "byte list" | Iter 'r

definition newline :: byte where
  "newline = 10"

section \<open>pyserial\<close>

text \<open>\<^verbatim>\<open>ser.in_waiting\<close>: the number of bytes in the driver's input buffer.\<close>
definition in_waiting :: "byte list \<Rightarrow> nat" where
  "in_waiting buf = length buf"

text \<open>
  \<^verbatim>\<open>ser.readline()\<close> with \<^verbatim>\<open>timeout=2\<close>: the bytes up to and including the first
  newline; when the buffer holds no newline, the read times out and returns what is
  there (a partial line). Bytes that arrive while \<^verbatim>\<open>readline\<close> waits are modelled as
  \<open>Recv\<close> events before the iteration.
\<close>
definition readline_timeout :: "byte list \<Rightarrow> byte list \<times> byte list" where
  "readline_timeout buf =
     (let l = takeWhile (\<lambda>b. b \<noteq> newline) buf
      in if length l < length buf then (l @ [newline], drop (Suc (length l)) buf)
         else (buf, []))"

text \<open>
  \<^verbatim>\<open>ser.readline()\<close> with no timeout: blocks until a newline has arrived
  (\<open>None\<close>: still blocked), then returns the line with its newline.
\<close>
definition readline_blocking :: "byte list \<Rightarrow> (byte list \<times> byte list) option" where
  "readline_blocking buf =
     (if newline \<in> set buf
      then Some (takeWhile (\<lambda>b. b \<noteq> newline) buf @ [newline],
                 tl (dropWhile (\<lambda>b. b \<noteq> newline) buf))
      else None)"

text \<open>
  The settings a script passes to \<^verbatim>\<open>serial.Serial(port, baudrate, timeout=...)\<close>;
  \<open>timeout = None\<close> is pyserial's default (block forever).
\<close>
record serial_port =
  port :: string
  baudrate :: nat
  timeout :: "nat option"

text \<open>
  \<^verbatim>\<open>ser.readline()\<close> on a port opened with the given settings: \<open>None\<close> while a
  read without timeout is still waiting for its newline. The bytes a blocked read has
  taken from the driver are not observable until it returns, so they are modelled as
  still in the buffer.
\<close>
definition ser_readline :: "serial_port \<Rightarrow> byte list \<Rightarrow> (byte list \<times> byte list) option" where
  "ser_readline cfg buf =
     (case timeout cfg of None \<Rightarrow> readline_blocking buf | Some _ \<Rightarrow> Some (readline_timeout buf))"

text \<open>
  A device that sends whole lines, one at a time, each followed by one iteration of
  the loop, with \<open>r\<close> the environment's answers to that iteration.
\<close>
definition line_events :: "(byte list \<times> 'r) list \<Rightarrow> 'r event list" where
  "line_events ls = concat (map (\<lambda>(l, r). [Recv (l @ [newline]), Iter r]) ls)"

section \<open>str.strip\<close>

text \<open>
  \<^verbatim>\<open>str.isspace\<close> for one code point: the characters of bidirectional class
  WS, B or S or of category Zs, as CPython's \<^verbatim>\<open>_PyUnicode_IsWhitespace\<close> lists them.
\<close>
definition is_py_space :: "nat \<Rightarrow> bool" where
  "is_py_space c \<longleftrightarrow>
     (9 \<le> c \<and> c \<le> 13) \<or> (0x1C \<le> c \<and> c \<le> 0x20) \<or> c = 0x85 \<or> c = 0xA0 \<or> c = 0x1680 \<or>
     (0x2000 \<le> c \<and> c \<le> 0x200A) \<or> c = 0x2028 \<or> c = 0x2029 \<or> c = 0x202F \<or>
     c = 0x205F \<or> c = 0x3000"

text \<open>\<^verbatim>\<open>str.strip()\<close>: drop white space at both ends.\<close>
definition py_strip :: "ustr \<Rightarrow> ustr" where
  "py_strip s = rev (dropWhile is_py_space (rev (dropWhile is_py_space s)))"

text \<open>
  The contract of \<^verbatim>\<open>strip\<close>: a string is stripped when it is empty or neither
  starts nor ends with white space.
\<close>
definition stripped :: "ustr \<Rightarrow> bool" where
  "stripped t \<longleftrightarrow> t = [] \<or> \<not> is_py_space (hd t) \<and> \<not> is_py_space (last t)"

section \<open>Properties of readline\<close>

lemma readline_timeout_append:
  "readline_timeout buf = (l, r) \<Longrightarrow> l @ r = buf"
proof -
  assume a: "readline_timeout buf = (l, r)"
  let ?P = "\<lambda>b. b \<noteq> newline"
  let ?l = "takeWhile ?P buf" and ?d = "dropWhile ?P buf"
  have id: "?l @ ?d = buf" by (rule takeWhile_dropWhile_id)
  show ?thesis
  proof (cases "length ?l < length buf")
    case True
    have "?d \<noteq> []"
    proof
      assume "?d = []"
      with id have "?l = buf" by simp
      with True show False by simp
    qed
    then have "?d = newline # tl ?d" using hd_dropWhile [of ?P buf] by (cases ?d) auto
    moreover have "tl ?d = drop (Suc (length ?l)) buf"
      by (simp add: dropWhile_eq_drop [of ?P buf] drop_Suc tl_drop)
    ultimately have "?l @ newline # drop (Suc (length ?l)) buf = buf" using id by simp
    with a True show ?thesis by (auto simp: readline_timeout_def Let_def)
  next
    case False
    with a show ?thesis by (simp add: readline_timeout_def Let_def)
  qed
qed

lemma readline_timeout_shorter:
  "buf \<noteq> [] \<Longrightarrow> readline_timeout buf = (l, r) \<Longrightarrow> length r < length buf"
  by (auto simp: readline_timeout_def Let_def split: if_splits)

lemma readline_timeout_line:
  "newline \<notin> set l \<Longrightarrow> readline_timeout (l @ newline # r) = (l @ [newline], r)"
  by (simp add: readline_timeout_def takeWhile_neq_append_eq)

lemma readline_timeout_partial:
  "newline \<notin> set buf \<Longrightarrow> readline_timeout buf = (buf, [])"
proof -
  assume "newline \<notin> set buf"
  then have t: "takeWhile (\<lambda>b. b \<noteq> newline) buf = buf"
    by (auto simp: takeWhile_eq_all_conv)
  show ?thesis by (simp only: readline_timeout_def Let_def t) simp
qed

lemma readline_blocking_line:
  "newline \<notin> set l \<Longrightarrow> readline_blocking (l @ newline # r) = Some (l @ [newline], r)"
  by (simp add: readline_blocking_def takeWhile_neq_append_eq dropWhile_neq_append_eq)

lemma readline_blocking_None:
  "readline_blocking buf = None \<longleftrightarrow> newline \<notin> set buf"
  by (simp add: readline_blocking_def)

section \<open>Properties of strip\<close>

lemma py_strip_infix:
  "\<exists>a b. s = a @ py_strip s @ b \<and> list_all is_py_space a \<and> list_all is_py_space b"
proof -
  let ?a = "takeWhile is_py_space s" and ?m = "dropWhile is_py_space s"
  let ?b = "rev (takeWhile is_py_space (rev ?m))"
  have "rev ?m = takeWhile is_py_space (rev ?m) @ dropWhile is_py_space (rev ?m)"
    by simp
  then have "?m = rev (dropWhile is_py_space (rev ?m)) @ ?b"
    by (metis rev_append rev_rev_ident)
  then have "s = ?a @ py_strip s @ ?b"
    unfolding py_strip_def by (metis append.assoc takeWhile_dropWhile_id)
  moreover have "list_all is_py_space ?a" "list_all is_py_space ?b"
    by (auto simp: list_all_iff dest: set_takeWhileD)
  ultimately show ?thesis by blast
qed

lemma py_strip_set: "set (py_strip s) \<subseteq> set s"
  using py_strip_infix [of s] by (metis Un_iff set_append subsetI)

lemma py_strip_stripped: "stripped (py_strip s)"
proof (cases "py_strip s = []")
  case True
  then show ?thesis by (simp add: stripped_def)
next
  case False
  let ?m = "dropWhile is_py_space s"
  have d: "dropWhile is_py_space (rev ?m) \<noteq> []" using False by (simp add: py_strip_def)
  have m: "?m \<noteq> []"
  proof
    assume "?m = []"
    with d show False by simp
  qed
  have "last (py_strip s) = hd (dropWhile is_py_space (rev ?m))"
    using d by (simp add: py_strip_def last_rev)
  moreover have "hd (py_strip s) = hd ?m"
  proof -
    have "hd (py_strip s) = last (dropWhile is_py_space (rev ?m))"
      using d by (simp add: py_strip_def hd_rev)
    also have "\<dots> = last (rev ?m)" using d by (rule last_dropWhile)
    finally show ?thesis using m by (simp add: last_rev)
  qed
  ultimately show ?thesis
    using d m hd_dropWhile [of is_py_space s] hd_dropWhile [of is_py_space "rev ?m"]
    by (simp add: stripped_def)
qed

lemma py_strip_append:
  assumes "list_all is_py_space a" "list_all is_py_space b" "stripped t"
  shows "py_strip (a @ t @ b) = t"
proof (cases "t = []")
  case True
  with assms show ?thesis
    by (auto simp: py_strip_def list_all_iff dest: set_dropWhileD)
next
  case False
  then obtain x xs where t: "t = x # xs" by (cases t) auto
  obtain y ys where rt: "rev t = y # ys" using False by (cases "rev t") auto
  have "y = last t" using rt hd_rev [of t] by simp
  then have "\<not> is_py_space x" "\<not> is_py_space y"
    using assms(3) t by (simp_all add: stripped_def)
  then have "dropWhile is_py_space (a @ t @ b) = t @ b"
    using assms(1) t by (simp add: dropWhile_all_append)
  moreover have "dropWhile is_py_space (rev b @ rev t) = rev t"
    using assms(2) rt \<open>\<not> is_py_space y\<close> by (simp add: dropWhile_all_append)
  ultimately show ?thesis by (simp add: py_strip_def)
qed
section \<open>Lines\<close>

text \<open>A decoded line ends with the newline character, which \<open>strip\<close> removes.\<close>

lemma utf8_decode_line: "utf8_decode l = Some t \<Longrightarrow> utf8_decode (l @ [newline]) = Some (t @ [10])"
  using utf8_decode_append [of l t "[newline]"] by (simp add: newline_def)

lemma py_strip_snoc_space:
  assumes "is_py_space c"
  shows "py_strip (t @ [c]) = py_strip t"
proof (cases "\<forall>x\<in>set t. is_py_space x")
  case True
  then have d: "dropWhile is_py_space t = []" by (simp add: dropWhile_eq_Nil_conv)
  have "dropWhile is_py_space (t @ [c]) = []" using True assms by (simp add: dropWhile_append)
  then show ?thesis unfolding py_strip_def d by simp
next
  case False
  with assms show ?thesis by (auto simp: py_strip_def dropWhile_append)
qed

lemma py_strip_line: "py_strip (t @ [10]) = py_strip t"
  by (rule py_strip_snoc_space) (simp add: is_py_space_def)

section \<open>Bytes of ASCII text\<close>

lemma newline_notin_ascii:
  assumes "is_ascii t" "10 \<notin> set t"
  shows "newline \<notin> set (map of_nat t :: byte list)"
proof
  assume "newline \<in> set (map of_nat t :: byte list)"
  then obtain c where c: "c \<in> set t" "(of_nat c :: byte) = newline" by auto
  have "c < 256" using c(1) assms(1) by (auto simp: is_ascii_def list_all_iff)
  then have "c = unat (newline :: byte)" using c(2) unat_of_nat_byte [of c] by metis
  with c(1) assms(2) show False by (simp add: newline_def)
qed

section \<open>The contracts of readline and strip\<close>

text \<open>
  C16. \<^verbatim>\<open>readline\<close> with a timeout splits the buffer into the reading and the
  rest without losing or reordering bytes; when the buffer holds a newline the
  reading is the bytes up to and including the first one, and otherwise it is the
  whole buffer, a partial line without newline.
\<close>
theorem readline_timeout_split:
  assumes "readline_timeout buf = (l, r)"
  shows "l @ r = buf \<and>
         (newline \<in> set buf \<longrightarrow> (\<exists>l'. l = l' @ [newline] \<and> newline \<notin> set l')) \<and>
         (newline \<notin> set buf \<longrightarrow> l = buf \<and> r = [])"
proof -
  have app: "l @ r = buf" using readline_timeout_append [OF assms] .
  have line: "\<exists>l'. l = l' @ [newline] \<and> newline \<notin> set l'" if n: "newline \<in> set buf"
  proof -
    obtain l' r' where b: "buf = l' @ newline # r'" "newline \<notin> set l'"
      using n by (metis in_set_conv_decomp_first)
    then show ?thesis using assms readline_timeout_line [OF b(2), of r'] by auto
  qed
  show ?thesis using app line readline_timeout_partial assms by auto
qed

theorem readline_timeout_split_witness:
  "readline_timeout [0x31, 10, 0x32] = ([0x31, 10], [0x32]) \<and> readline_timeout [0xC3] = ([0xC3], [])"
proof -
  have "([0x31, 10] :: byte list) @ [0x32] = [0x31, 10, 0x32]" by simp
  have n: "newline \<in> set [0x31, 10, 0x32 :: byte]" "newline \<notin> set [0xC3 :: byte]"
    by (simp_all add: newline_def)
  obtain l r where a: "readline_timeout [0x31, 10, 0x32] = (l, r)" by fastforce
  obtain l2 r2 where b: "readline_timeout [0xC3] = (l2, r2)" by fastforce
  from readline_timeout_split [OF a] n(1) obtain l' where
    "l = l' @ [newline]" "newline \<notin> set l'" "l @ r = [0x31, 10, 0x32]" by auto
  then have "l = [0x31, 10] \<and> r = [0x32]"
    by (cases l' rule: rev_cases) (auto simp: newline_def Cons_eq_append_conv append_eq_Cons_conv)
  moreover from readline_timeout_split [OF b] n(2) have "l2 = [0xC3] \<and> r2 = []" by simp
  ultimately show ?thesis using a b by simp
qed

text \<open>
  C15. \<^verbatim>\<open>str.strip()\<close> returns \<open>t\<close> exactly when \<open>t\<close> neither starts nor ends with
  white space and the input is \<open>t\<close> with white space (only) around it.
\<close>
theorem py_strip_iff:
  "py_strip s = t \<longleftrightarrow>
     stripped t \<and> (\<exists>a b. s = a @ t @ b \<and> list_all is_py_space a \<and> list_all is_py_space b)"
  using py_strip_stripped [of s] py_strip_infix [of s] py_strip_append by blast

theorem py_strip_iff_witness:
  "py_strip [32, 0x31, 32, 0x32, 13, 10] = [0x31, 32, 0x32]"
proof -
  have "\<exists>a b. [32, 0x31, 32, 0x32, 13, 10] = a @ [0x31, 32, 0x32] @ b \<and>
      list_all is_py_space a \<and> list_all is_py_space b"
    by (rule exI [of _ "[32]"], rule exI [of _ "[13, 10]"]) (simp add: is_py_space_def)
  moreover have "stripped [0x31, 32, 0x32]" by (simp add: stripped_def is_py_space_def)
  ultimately show ?thesis
    using py_strip_iff [of "[32, 0x31, 32, 0x32, 13, 10]" "[0x31, 32, 0x32]"] by blast
qed

end
