(* ===== verification/Json.thy ===== *)
theory Json
  imports Serial
begin

text \<open>
  \<^verbatim>\<open>json.loads\<close> as serial_to_telegraf.py line 17 calls it on a stripped line:
  CPython's \<^verbatim>\<open>json\<close> module with its C scanner (\<^verbatim>\<open>_json.c\<close>:
  \<^verbatim>\<open>scan_once_unicode\<close>, \<^verbatim>\<open>scanstring_unicode\<close>, \<^verbatim>\<open>_parse_object_unicode\<close>,
  \<^verbatim>\<open>_parse_array_unicode\<close>, \<^verbatim>\<open>_match_number_unicode\<close>) and
  \<^verbatim>\<open>JSONDecoder.decode\<close>. The result is the Python object the call returns,
  or the exception it raises: \<^verbatim>\<open>JSONDecodeError\<close> for malformed text, but also
  \<^verbatim>\<open>RecursionError\<close> when arrays and objects nest deeper than the interpreter's
  recursion budget, and \<^verbatim>\<open>ValueError\<close> for an integer literal of more than 4300
  digits (CPython 3.11 and later). Only the latter is caught by the script.
  The scanner is defined with a fuel argument; \<open>json_loads\<close> gives it one unit more
  than the length of the text, which is proved enough.
\<close>

section \<open>Python objects produced by the decoder\<close>

text \<open>
  A Python \<^verbatim>\<open>float\<close> as \<^verbatim>\<open>float(numstr)\<close> produces it: \<open>FloatVal neg m e\<close> is
  \<open>(-1)^neg * m * 10^e\<close> with \<open>m\<close> free of trailing decimal zeros (and \<open>e = 0\<close> when
  \<open>m = 0\<close>, the sign then giving \<open>-0.0\<close>); \<open>FloatInf neg\<close> is \<open>\<plusminus>inf\<close>.
\<close>
datatype pyfloat = FloatVal bool nat int | FloatInf bool | FloatNaN

text \<open>
  The objects \<^verbatim>\<open>json.loads\<close> builds: \<^verbatim>\<open>None\<close>, \<^verbatim>\<open>bool\<close>, \<^verbatim>\<open>int\<close>,
  \<^verbatim>\<open>float\<close>, \<^verbatim>\<open>str\<close>, \<^verbatim>\<open>list\<close> and \<^verbatim>\<open>dict\<close>. A dict is an association list
  in insertion order (what iteration over a Python dict yields).
\<close>
datatype json =
    PyNone
  | PyBool bool
  | PyInt int
  | PyFloat pyfloat
  | PyStr ustr
  | PyList "json list"
  | PyDict "(ustr \<times> json) list"

text \<open>A scanner result: an exception, or a value and the text after it.\<close>
type_synonym 'a scan = "py_exc + ('a \<times> ustr)"

section \<open>Characters\<close>

abbreviation chr :: "char \<Rightarrow> nat" where
  "chr c \<equiv> of_char c"

text \<open>The double quote and the backslash, which Isabelle's string literals cannot hold.\<close>
abbreviation quote_ch :: nat where
  "quote_ch \<equiv> 0x22"

abbreviation backslash_ch :: nat where
  "backslash_ch \<equiv> 0x5C"

text \<open>\<^verbatim>\<open>IS_WHITESPACE\<close> of \<^verbatim>\<open>_json.c\<close>: space, tab, newline, carriage return.\<close>
definition json_ws :: "nat \<Rightarrow> bool" where
  "json_ws c \<longleftrightarrow> c = 32 \<or> c = 9 \<or> c = 10 \<or> c = 13"

definition skip_ws :: "ustr \<Rightarrow> ustr" where
  "skip_ws s = dropWhile json_ws s"

definition is_digit :: "nat \<Rightarrow> bool" where
  "is_digit c \<longleftrightarrow> chr CHR ''0'' \<le> c \<and> c \<le> chr CHR ''9''"

definition hex_val :: "nat \<Rightarrow> nat option" where
  "hex_val c =
     (if is_digit c then Some (c - chr CHR ''0'')
      else if chr CHR ''a'' \<le> c \<and> c \<le> chr CHR ''f'' then Some (c - chr CHR ''a'' + 10)
      else if chr CHR ''A'' \<le> c \<and> c \<le> chr CHR ''F'' then Some (c - chr CHR ''A'' + 10)
      else None)"

fun hex_digits :: "nat \<Rightarrow> ustr \<Rightarrow> nat option" where
  "hex_digits acc [] = Some acc"
| "hex_digits acc (c # cs) =
     (case hex_val c of None \<Rightarrow> None | Some d \<Rightarrow> hex_digits (acc * 16 + d) cs)"

text \<open>The four hex digits of a \<^verbatim>\<open>\uXXXX\<close> escape (\<open>None\<close>: "Invalid \uXXXX escape").\<close>
definition hex4 :: "ustr \<Rightarrow> nat option" where
  "hex4 s = (if length s < 4 then None else hex_digits 0 (take 4 s))"

text \<open>The one-character escapes: \<^verbatim>\<open>\" \\ \/ \b \f \n \r \t\<close>.\<close>
definition simple_escape :: "nat \<Rightarrow> nat option" where
  "simple_escape e =
     (if e = quote_ch \<or> e = backslash_ch \<or> e = chr CHR ''/'' then Some e
      else if e = chr CHR ''b'' then Some 8
      else if e = chr CHR ''f'' then Some 12
      else if e = chr CHR ''n'' then Some 10
      else if e = chr CHR ''r'' then Some 13
      else if e = chr CHR ''t'' then Some 9
      else None)"

definition is_high_surrogate :: "nat \<Rightarrow> bool" where
  "is_high_surrogate u \<longleftrightarrow> 0xD800 \<le> u \<and> u \<le> 0xDBFF"

definition is_low_surrogate :: "nat \<Rightarrow> bool" where
  "is_low_surrogate u \<longleftrightarrow> 0xDC00 \<le> u \<and> u \<le> 0xDFFF"

definition join_surrogates :: "nat \<Rightarrow> nat \<Rightarrow> nat" where
  "join_surrogates hi lo = 0x10000 + (hi - 0xD800) * 0x400 + (lo - 0xDC00)"

section \<open>Strings\<close>

text \<open>
  The escape after a backslash inside a string, as \<^verbatim>\<open>scanstring_unicode\<close> decodes
  it: the code point and the text after the escape; \<open>None\<close> is "Invalid \escape" or
  "Invalid \uXXXX escape". A high surrogate escape followed by a \<^verbatim>\<open>\u\<close> escape of
  a low surrogate is joined into one code point; any other surrogate escape stays a
  lone code point.
\<close>
definition scan_escape :: "ustr \<Rightarrow> (nat \<times> ustr) option" where
  "scan_escape r =
     (case r of
        [] \<Rightarrow> None
      | e # r' \<Rightarrow>
          if e = chr CHR ''u'' then
            (case hex4 r' of
               None \<Rightarrow> None
             | Some u \<Rightarrow>
                 let r2 = drop 4 r' in
                 if is_high_surrogate u \<and> take 2 r2 = [backslash_ch, chr CHR ''u''] then
                   (case hex4 (drop 2 r2) of
                      None \<Rightarrow> None
                    | Some u2 \<Rightarrow>
                        if is_low_surrogate u2 then Some (join_surrogates u u2, drop 6 r2)
                        else Some (u, r2))
                 else Some (u, r2))
          else map_option (\<lambda>c. (c, r')) (simple_escape e))"

lemma scan_escape_shorter: "scan_escape r = Some (u, r') \<Longrightarrow> length r' < length r"
  by (auto simp: scan_escape_def hex4_def Let_def split: list.splits option.splits if_splits)

text \<open>
  \<^verbatim>\<open>scanstring_unicode\<close> in strict mode, started after the opening quote; \<open>acc\<close>
  holds the characters decoded so far. A raw control character, a bad escape and a
  missing closing quote are errors (\<open>None\<close>).
\<close>
function scan_str :: "ustr \<Rightarrow> ustr \<Rightarrow> (ustr \<times> ustr) option" where
  "scan_str acc [] = None"
| "scan_str acc (c # r) =
     (if c = quote_ch then Some (acc, r)
      else if c = backslash_ch then
        (case scan_escape r of
           None \<Rightarrow> None
         | Some (u, r') \<Rightarrow> scan_str (acc @ [u]) r')
      else if c \<le> 0x1F then None
      else scan_str (acc @ [c]) r)"
  by pat_completeness auto
termination
  by (relation "measure (\<lambda>(acc, s). length s)") (auto dest: scan_escape_shorter)

section \<open>Numbers\<close>

definition digits_val :: "ustr \<Rightarrow> nat" where
  "digits_val ds = foldl (\<lambda>acc d. 10 * acc + (d - chr CHR ''0'')) 0 ds"

text \<open>
  \<^verbatim>\<open>float(numstr)\<close> for the decimal \<open>(-1)^neg * m * 10^e\<close>: the value is kept
  exact and normalised; it overflows to infinity from \<open>2^1024 - 2^970\<close> up (the
  rounding threshold of the largest double) and underflows to zero up to \<open>2^-1075\<close>.
\<close>
fun norm_dec :: "nat \<Rightarrow> int \<Rightarrow> nat \<times> int" where
  "norm_dec m e =
     (if m = 0 then (0, 0) else if m mod 10 = 0 then norm_dec (m div 10) (e + 1) else (m, e))"

definition float_overflows :: "nat \<Rightarrow> int \<Rightarrow> bool" where
  "float_overflows m e =
     (if 0 \<le> e then 2 ^ 1024 - 2 ^ 970 \<le> m * 10 ^ nat e
      else (2 ^ 1024 - 2 ^ 970) * 10 ^ nat (- e) \<le> m)"

definition float_underflows :: "nat \<Rightarrow> int \<Rightarrow> bool" where
  "float_underflows m e = (e < 0 \<and> m * 2 ^ 1075 \<le> 10 ^ nat (- e))"

definition mk_float :: "bool \<Rightarrow> nat \<Rightarrow> int \<Rightarrow> pyfloat" where
  "mk_float neg m e =
     (if float_overflows m e then FloatInf neg
      else if float_underflows m e then FloatVal neg 0 0
      else (case norm_dec m e of (m', e') \<Rightarrow> FloatVal neg m' e'))"

text \<open>CPython's limit on the digits of an integer literal (\<^verbatim>\<open>sys.int_info.default_max_str_digits\<close>).\<close>
definition max_str_digits :: nat where
  "max_str_digits = 4300"

text \<open>
  The stages of \<^verbatim>\<open>_match_number_unicode\<close>. The integer part: \<^verbatim>\<open>0\<close>, or a non-zero
  digit followed by all the digits after it.
\<close>
definition scan_int_part :: "ustr \<Rightarrow> (ustr \<times> ustr) option" where
  "scan_int_part s =
     (case s of
        [] \<Rightarrow> None
      | c # r \<Rightarrow>
          if c = chr CHR ''0'' then Some ([c], r)
          else if is_digit c then Some (c # takeWhile is_digit r, dropWhile is_digit r)
          else None)"

text \<open>The fraction: a dot followed by at least one digit, and all the digits after it.\<close>
definition scan_frac :: "ustr \<Rightarrow> ustr \<times> ustr" where
  "scan_frac s =
     (case s of
        d # d' # r \<Rightarrow>
          if d = chr CHR ''.'' \<and> is_digit d'
          then (takeWhile is_digit (d' # r), dropWhile is_digit (d' # r))
          else ([], s)
      | _ \<Rightarrow> ([], s))"

text \<open>
  The exponent: \<^verbatim>\<open>e\<close> or \<^verbatim>\<open>E\<close>, an optional sign, digits; without a digit the
  scanner backtracks to before the \<^verbatim>\<open>e\<close>.
\<close>
definition scan_exp :: "ustr \<Rightarrow> int option \<times> ustr" where
  "scan_exp s =
     (case s of
        x # r \<Rightarrow>
          if x = chr CHR ''e'' \<or> x = chr CHR ''E'' then
            let eneg = (take 1 r = [chr CHR ''-'']);
                r' = (if take 1 r = [chr CHR ''-''] \<or> take 1 r = [chr CHR ''+''] then drop 1 r else r);
                eds = takeWhile is_digit r'
            in if eds = [] then (None, s)
               else (Some (if eneg then - int (digits_val eds) else int (digits_val eds)),
                     dropWhile is_digit r')
          else (None, s)
      | [] \<Rightarrow> (None, s))"

text \<open>
  \<^verbatim>\<open>_match_number_unicode\<close>: an optional minus, the integer part, the optional
  fraction and exponent. No fraction and no exponent gives an \<^verbatim>\<open>int\<close> (which raises
  \<^verbatim>\<open>ValueError\<close> beyond \<open>max_str_digits\<close> digits), anything else a \<^verbatim>\<open>float\<close>.
  \<open>None\<close>: no number here (\<^verbatim>\<open>StopIteration\<close>, reported as "Expecting value").
\<close>
definition match_number :: "ustr \<Rightarrow> json scan option" where
  "match_number s =
     (let neg = (take 1 s = [chr CHR ''-'']);
          s1 = (if neg then drop 1 s else s)
      in case scan_int_part s1 of
           None \<Rightarrow> None
         | Some (ip, s2) \<Rightarrow>
             (case scan_frac s2 of
                (fp, s3) \<Rightarrow>
                  (case scan_exp s3 of
                     (ex, s4) \<Rightarrow>
                       if fp = [] \<and> ex = None then
                         (if max_str_digits < length ip then Some (Inl ValueError)
                          else Some (Inr (PyInt (if neg then - int (digits_val ip)
                                                 else int (digits_val ip)), s4)))
                       else
                         Some (Inr (PyFloat (mk_float neg (digits_val (ip @ fp))
                                      ((case ex of None \<Rightarrow> 0 | Some x \<Rightarrow> x) - int (length fp))),
                                    s4)))))"

section \<open>Values, arrays and objects\<close>

text \<open>
  What follows an element of an array or an object: the closing bracket (\<open>SepEnd\<close>,
  with the text after it), a comma (\<open>SepMore\<close>, with the text where the next element
  or key starts), or anything else ("Expecting ',' delimiter").
\<close>
datatype sep = SepEnd ustr | SepMore ustr | SepBad

definition list_sep :: "ustr \<Rightarrow> sep" where
  "list_sep r =
     (case skip_ws r of
        [] \<Rightarrow> SepBad
      | d # r' \<Rightarrow>
          if d = chr CHR '']'' then SepEnd r'
          else if d = chr CHR '','' then SepMore (skip_ws r')
          else SepBad)"

text \<open>After a comma in an object the next key must open with a quote.\<close>
definition dict_sep :: "ustr \<Rightarrow> sep" where
  "dict_sep r =
     (case skip_ws r of
        [] \<Rightarrow> SepBad
      | d # r' \<Rightarrow>
          if d = chr CHR ''}'' then SepEnd r'
          else if d = chr CHR '','' then
            (case skip_ws r' of
               q # r'' \<Rightarrow> if q = quote_ch then SepMore r'' else SepBad
             | [] \<Rightarrow> SepBad)
          else SepBad)"

text \<open>
  A key of an object, read from after its opening quote, and the colon after it:
  the key and the text where the value starts.
\<close>
definition dict_key :: "ustr \<Rightarrow> (ustr \<times> ustr) option" where
  "dict_key s =
     (case scan_str [] s of
        None \<Rightarrow> None
      | Some (k, r) \<Rightarrow>
          (case skip_ws r of
             c # r1 \<Rightarrow> if c = chr CHR '':'' then Some (k, skip_ws r1) else None
           | [] \<Rightarrow> None))"

text \<open>
  \<^verbatim>\<open>scan_once_unicode\<close> (\<open>parse_value\<close>), \<^verbatim>\<open>_parse_array_unicode\<close> (\<open>parse_list\<close>,
  entered at the first element) and \<^verbatim>\<open>_parse_object_unicode\<close> (\<open>parse_dict\<close>,
  entered after the opening quote of a key). The first argument is fuel (\<open>None\<close>:
  exhausted); the second is the number of containers that may still be entered
  before \<^verbatim>\<open>Py_EnterRecursiveCall\<close> raises \<^verbatim>\<open>RecursionError\<close>. A list or dict
  calls \<open>parse_value\<close> on its elements with the same fuel, and itself on the rest with
  one unit less. Keys are stored with \<open>AList.update\<close>, as \<^verbatim>\<open>PyDict_SetItem\<close> does:
  a repeated key keeps its first position and takes the last value.
\<close>
fun parse_value :: "nat \<Rightarrow> nat \<Rightarrow> ustr \<Rightarrow> json scan option"
and parse_list :: "nat \<Rightarrow> nat \<Rightarrow> json list \<Rightarrow> ustr \<Rightarrow> json scan option"
and parse_dict :: "nat \<Rightarrow> nat \<Rightarrow> (ustr \<times> json) list \<Rightarrow> ustr \<Rightarrow> json scan option" where
  "parse_value 0 b s = None"
| "parse_value (Suc f) b s =
     (case s of
        [] \<Rightarrow> Some (Inl JSONDecodeError)
      | c # r \<Rightarrow>
          if c = quote_ch then
            Some (case scan_str [] r of
                    None \<Rightarrow> Inl JSONDecodeError
                  | Some (str, r') \<Rightarrow> Inr (PyStr str, r'))
          else if c = chr CHR ''{'' then
            (if b = 0 then Some (Inl RecursionError)
             else (case skip_ws r of
                     [] \<Rightarrow> Some (Inl JSONDecodeError)
                   | d # r' \<Rightarrow>
                       if d = chr CHR ''}'' then Some (Inr (PyDict [], r'))
                       else if d = quote_ch then parse_dict f (b - 1) [] r'
                       else Some (Inl JSONDecodeError)))
          else if c = chr CHR ''['' then
            (if b = 0 then Some (Inl RecursionError)
             else (case skip_ws r of
                     [] \<Rightarrow> Some (Inl JSONDecodeError)
                   | d # r' \<Rightarrow>
                       if d = chr CHR '']'' then Some (Inr (PyList [], r'))
                       else parse_list f (b - 1) [] (d # r')))
          else if take 4 s = ustr_of ''null'' then Some (Inr (PyNone, drop 4 s))
          else if take 4 s = ustr_of ''true'' then Some (Inr (PyBool True, drop 4 s))
          else if take 5 s = ustr_of ''false'' then Some (Inr (PyBool False, drop 5 s))
          else if take 3 s = ustr_of ''NaN'' then Some (Inr (PyFloat FloatNaN, drop 3 s))
          else if take 8 s = ustr_of ''Infinity'' then Some (Inr (PyFloat (FloatInf False), drop 8 s))
          else if take 9 s = ustr_of ''-Infinity'' then Some (Inr (PyFloat (FloatInf True), drop 9 s))
          else (case match_number s of
                  None \<Rightarrow> Some (Inl JSONDecodeError)
                | Some res \<Rightarrow> Some res))"
| "parse_list 0 b acc s = None"
| "parse_list (Suc f) b acc s =
     (case parse_value (Suc f) b s of
        None \<Rightarrow> None
      | Some (Inl e) \<Rightarrow> Some (Inl e)
      | Some (Inr (v, r)) \<Rightarrow>
          (case list_sep r of
             SepEnd r' \<Rightarrow> Some (Inr (PyList (acc @ [v]), r'))
           | SepMore r' \<Rightarrow> parse_list f b (acc @ [v]) r'
           | SepBad \<Rightarrow> Some (Inl JSONDecodeError)))"
| "parse_dict 0 b acc s = None"
| "parse_dict (Suc f) b acc s =
     (case dict_key s of
        None \<Rightarrow> Some (Inl JSONDecodeError)
      | Some (k, r) \<Rightarrow>
          (case parse_value (Suc f) b r of
             None \<Rightarrow> None
           | Some (Inl e) \<Rightarrow> Some (Inl e)
           | Some (Inr (v, r')) \<Rightarrow>
               (case dict_sep r' of
                  SepEnd r'' \<Rightarrow> Some (Inr (PyDict (AList.update k v acc), r''))
                | SepMore r'' \<Rightarrow> parse_dict f b (AList.update k v acc) r''
                | SepBad \<Rightarrow> Some (Inl JSONDecodeError))))"

text \<open>
  \<^verbatim>\<open>json.loads(s)\<close>: a leading byte order mark is refused, white space is skipped
  around the one value, and anything after it is "Extra data". \<open>depth\<close> is the
  recursion budget left to the decoder when the script calls it.
\<close>
definition json_loads :: "nat \<Rightarrow> ustr \<Rightarrow> py_exc + json" where
  "json_loads depth s =
     (if take 1 s = [0xFEFF] then Inl JSONDecodeError
      else (case parse_value (Suc (length s)) depth (skip_ws s) of
              None \<Rightarrow> Inl JSONDecodeError
            | Some (Inl e) \<Rightarrow> Inl e
            | Some (Inr (v, r)) \<Rightarrow> if skip_ws r = [] then Inr v else Inl JSONDecodeError))"

text \<open>
  Writing JSON documents in Isabelle string literals: a backquote stands for the
  double quote, which the literals cannot contain.
\<close>
definition qtext :: "string \<Rightarrow> ustr" where
  "qtext s = map (\<lambda>c. if c = CHR ''`'' then quote_ch else of_char c) s"


section \<open>The scanner consumes input\<close>

text \<open>Every scanning step returns a proper suffix of its input.\<close>

lemma length_skip_ws: "length (skip_ws s) \<le> length s"
  by (simp add: skip_ws_def length_dropWhile_le)

lemma scan_str_shorter: "scan_str acc s = Some (t, rest) \<Longrightarrow> length rest < length s"
proof (induction acc s arbitrary: t rest rule: scan_str.induct)
  case (1 acc)
  then show ?case by simp
next
  case (2 acc c r)
  then show ?case
    by (fastforce split: if_splits option.splits dest: scan_escape_shorter)
qed

lemma scan_int_part_shorter: "scan_int_part s = Some (ip, r) \<Longrightarrow> length r < length s"
  by (auto simp: scan_int_part_def length_dropWhile_le le_imp_less_Suc split: list.splits if_splits)

lemma scan_frac_le: "scan_frac s = (fp, r) \<Longrightarrow> length r \<le> length s"
  by (auto simp: scan_frac_def le_SucI length_dropWhile_le split: list.splits if_splits)

lemma scan_exp_le: "scan_exp s = (x, r) \<Longrightarrow> length r \<le> length s"
  unfolding scan_exp_def Let_def
  by (auto split: list.splits if_splits intro: le_SucI order.trans [OF length_dropWhile_le])

lemma match_number_shorter: "match_number s = Some (Inr (v, r)) \<Longrightarrow> length r < length s"
proof -
  assume a: "match_number s = Some (Inr (v, r))"
  let ?s1 = "if take 1 s = [chr CHR ''-''] then drop 1 s else s"
  from a obtain ip s2 fp s3 x where
    i: "scan_int_part ?s1 = Some (ip, s2)" and f: "scan_frac s2 = (fp, s3)"
    and e: "scan_exp s3 = (x, r)"
    by (auto simp: match_number_def Let_def split: option.splits prod.splits if_splits)
  have "length ?s1 \<le> length s" by simp
  with scan_int_part_shorter [OF i] scan_frac_le [OF f] scan_exp_le [OF e]
  show ?thesis by linarith
qed

lemma skip_ws_Cons_shorter: "skip_ws s = c # r \<Longrightarrow> length r < length s"
  using length_skip_ws [of s] by simp

lemma list_sep_shorter:
  "list_sep r = SepEnd r' \<Longrightarrow> length r' < length r"
  "list_sep r = SepMore r' \<Longrightarrow> length r' < length r"
  by (auto simp: list_sep_def split: list.splits if_splits dest!: skip_ws_Cons_shorter
      intro: le_less_trans [OF length_skip_ws])

lemma dict_sep_shorter:
  "dict_sep r = SepEnd r' \<Longrightarrow> length r' < length r"
  "dict_sep r = SepMore r' \<Longrightarrow> length r' < length r"
  by (auto simp: dict_sep_def split: list.splits if_splits dest!: skip_ws_Cons_shorter)

lemma skip_ws_less: "length s < n \<Longrightarrow> length (skip_ws s) < n"
  using length_skip_ws [of s] by simp

lemma dict_key_shorter: "dict_key s = Some (k, r) \<Longrightarrow> length r < length s"
  by (auto simp: dict_key_def split: list.splits if_splits option.splits
      dest!: skip_ws_Cons_shorter scan_str_shorter intro!: skip_ws_less)

lemma parse_shorter_fuel:
  "(\<forall>b s v r. parse_value f b s = Some (Inr (v, r)) \<longrightarrow> length r < length s) \<and>
   (\<forall>b acc s v r. parse_list f b acc s = Some (Inr (v, r)) \<longrightarrow> length r < length s) \<and>
   (\<forall>b acc s v r. parse_dict f b acc s = Some (Inr (v, r)) \<longrightarrow> length r < length s)"
proof (induction f)
  case 0
  then show ?case by simp
next
  case (Suc f)
  have V: "length r < length s" if a: "parse_value (Suc f) b s = Some (Inr (v, r))" for b s v r
    using a Suc.IH
    by (auto simp: Let_def split: list.splits if_splits option.splits prod.splits
        dest!: scan_str_shorter match_number_shorter skip_ws_Cons_shorter)
      (fastforce+)
  have L: "length r < length s" if a: "parse_list (Suc f) b acc s = Some (Inr (v, r))" for b acc s v r
  proof -
    from a obtain v0 r0 where p: "parse_value (Suc f) b s = Some (Inr (v0, r0))"
      by (auto split: option.splits sum.splits)
    with V have l0: "length r0 < length s" by blast
    from a p have "list_sep r0 = SepEnd r \<or>
        (\<exists>r1. list_sep r0 = SepMore r1 \<and> parse_list f b (acc @ [v0]) r1 = Some (Inr (v, r)))"
      by (auto split: sep.splits)
    then show ?thesis
    proof (elim disjE exE conjE)
      assume "list_sep r0 = SepEnd r"
      with l0 show ?thesis using list_sep_shorter(1) by fastforce
    next
      fix r1 assume "list_sep r0 = SepMore r1" "parse_list f b (acc @ [v0]) r1 = Some (Inr (v, r))"
      with l0 Suc.IH show ?thesis using list_sep_shorter(2) by fastforce
    qed
  qed
  have D: "length r < length s" if a: "parse_dict (Suc f) b acc s = Some (Inr (v, r))" for b acc s v r
  proof -
    from a obtain k r0 where key: "dict_key s = Some (k, r0)"
      by (auto split: option.splits)
    with a obtain v0 r1 where p: "parse_value (Suc f) b r0 = Some (Inr (v0, r1))"
      by (auto split: option.splits sum.splits)
    with V dict_key_shorter [OF key] have l1: "length r1 < length s" by fastforce
    from a key p have "dict_sep r1 = SepEnd r \<or>
        (\<exists>r2. dict_sep r1 = SepMore r2 \<and>
              parse_dict f b (AList.update k v0 acc) r2 = Some (Inr (v, r)))"
      by (auto split: sep.splits)
    then show ?thesis
    proof (elim disjE exE conjE)
      assume "dict_sep r1 = SepEnd r"
      with l1 show ?thesis using dict_sep_shorter(1) by fastforce
    next
      fix r2 assume "dict_sep r1 = SepMore r2"
        "parse_dict f b (AList.update k v0 acc) r2 = Some (Inr (v, r))"
      with l1 Suc.IH show ?thesis using dict_sep_shorter(2) by fastforce
    qed
  qed
  from V L D show ?case by blast
qed

lemma parse_value_shorter: "parse_value f b s = Some (Inr (v, r)) \<Longrightarrow> length r < length s"
  using parse_shorter_fuel by blast

lemma parse_fuel_enough:
  "(\<forall>b s. length s < f \<longrightarrow> parse_value f b s \<noteq> None) \<and>
   (\<forall>b acc s. length s < f \<longrightarrow> parse_list f b acc s \<noteq> None) \<and>
   (\<forall>b acc s. length s < f \<longrightarrow> parse_dict f b acc s \<noteq> None)"
proof (induction f)
  case 0
  then show ?case by simp
next
  case (Suc f)
  have V: "parse_value (Suc f) b s \<noteq> None" if "length s < Suc f" for b s
    using that Suc.IH
    by (auto simp: Let_def split: list.splits if_splits option.splits
        dest!: skip_ws_Cons_shorter)
  have L: "parse_list (Suc f) b acc s \<noteq> None" if l: "length s < Suc f" for b acc s
  proof (cases "parse_value (Suc f) b s")
    case None
    with V l show ?thesis by blast
  next
    case (Some res)
    show ?thesis
    proof (cases res)
      case (Inl e)
      with Some show ?thesis by simp
    next
      case (Inr p)
      then obtain v0 r0 where p: "res = Inr (v0, r0)" by (cases p) auto
      from Some p have "length r0 < length s"
        using parse_value_shorter [of "Suc f" b s v0 r0] by simp
      with l Suc.IH Some p show ?thesis
        by (auto split: sep.splits dest: list_sep_shorter(2))
    qed
  qed
  have D: "parse_dict (Suc f) b acc s \<noteq> None" if l: "length s < Suc f" for b acc s
  proof (cases "dict_key s")
    case None
    then show ?thesis by simp
  next
    case (Some kr)
    then obtain k r0 where key: "dict_key s = Some (k, r0)" by (cases kr) auto
    have l0: "length r0 < Suc f" using dict_key_shorter [OF key] l by simp
    show ?thesis
    proof (cases "parse_value (Suc f) b r0")
      case None
      with V l0 show ?thesis by blast
    next
      case (Some res)
      show ?thesis
      proof (cases res)
        case (Inl e)
        with Some key show ?thesis by simp
      next
        case (Inr p)
        then obtain v0 r1 where p: "res = Inr (v0, r1)" by (cases p) auto
        from Some p have "length r1 < length r0"
          using parse_value_shorter [of "Suc f" b r0 v0 r1] by simp
        with l0 Suc.IH Some p key show ?thesis
          by (auto split: sep.splits dest: dict_sep_shorter(2))
      qed
    qed
  qed
  from V L D show ?case by blast
qed

section \<open>Termination\<close>

text \<open>
  C14. The fuel \<open>json_loads\<close> gives the scanner, one more than the length of the
  text, is always enough: the scanner never runs out of it, so \<open>json_loads\<close>
  returns a value or raises one of the decoder's exceptions on every input.
\<close>
theorem json_loads_fuel_enough: "parse_value (Suc (length s)) depth (skip_ws s) \<noteq> None"
  using parse_fuel_enough length_skip_ws [of s] by (meson le_imp_less_Suc)

section \<open>Evaluation\<close>

text \<open>The scanner's equations at numeral fuel, and the definitions a concrete document
  needs, for evaluating \<open>json_loads\<close> by the simplifier.\<close>

lemmas parse_value_numeral = parse_value.simps(2) [of "pred_numeral k" for k, folded numeral_eq_Suc]
lemmas parse_list_numeral = parse_list.simps(2) [of "pred_numeral k" for k, folded numeral_eq_Suc]
lemmas parse_dict_numeral = parse_dict.simps(2) [of "pred_numeral k" for k, folded numeral_eq_Suc]

lemmas json_eval = json_loads_def qtext_def skip_ws_def json_ws_def list_sep_def dict_sep_def
  dict_key_def match_number_def scan_int_part_def scan_frac_def scan_exp_def is_digit_def
  digits_val_def max_str_digits_def mk_float_def float_overflows_def float_underflows_def
  scan_escape_def hex4_def hex_val_def simple_escape_def is_high_surrogate_def
  is_low_surrogate_def join_surrogates_def ustr_of_def
  parse_value_numeral parse_list_numeral parse_dict_numeral

end
