(* ===== verification/JsonDump.thy ===== *)
theory JsonDump
  imports Json
begin

text \<open>
  The encoder side of the forwarder: \<^verbatim>\<open>requests.post(url, json=data)\<close>
  (serial_to_telegraf.py line 18) serialises \<open>data\<close> with
  \<^verbatim>\<open>json.dumps(data, allow_nan=False)\<close> and encodes the text as UTF-8. The
  encoder is CPython's C encoder (\<^verbatim>\<open>encoder_listencode_obj\<close>) with the default
  separators \<^verbatim>\<open>', '\<close> and \<^verbatim>\<open>': '\<close> and \<^verbatim>\<open>ensure_ascii=True\<close>
  (\<^verbatim>\<open>ascii_escape_unichar\<close>); floats are written by \<^verbatim>\<open>float.__repr__\<close>
  (the shortest digits, in positional notation for decimal exponents from -4 to 16);
  NaN and the infinities raise \<^verbatim>\<open>ValueError\<close>, which requests turns into
  \<^verbatim>\<open>InvalidJSONError\<close>, a \<^verbatim>\<open>RequestException\<close>, before anything is sent.
\<close>

section \<open>Numbers\<close>

text \<open>The decimal digits of a natural number, as \<^verbatim>\<open>int.__repr__\<close> prints them.\<close>
fun nat_digits :: "nat \<Rightarrow> ustr" where
  "nat_digits n = (if n < 10 then [chr CHR ''0'' + n] else nat_digits (n div 10) @ [chr CHR ''0'' + n mod 10])"

declare nat_digits.simps [simp del]

definition int_repr :: "int \<Rightarrow> ustr" where
  "int_repr i = (if i < 0 then chr CHR ''-'' # nat_digits (nat (- i)) else nat_digits (nat i))"

text \<open>The exponent of \<^verbatim>\<open>repr\<close>'s scientific notation: a sign and at least two digits.\<close>
definition exp_repr :: "int \<Rightarrow> ustr" where
  "exp_repr x =
     (if x < 0 then chr CHR ''-'' else chr CHR ''+'') #
     (let ds = nat_digits (nat \<bar>x\<bar>) in if length ds < 2 then chr CHR ''0'' # ds else ds)"

text \<open>
  \<^verbatim>\<open>float.__repr__\<close> of \<open>(-1)^neg * m * 10^e\<close> (\<open>m\<close> without trailing zeros):
  \<^verbatim>\<open>format_float_short\<close> in mode \<^verbatim>\<open>'r'\<close> with the digits of \<open>m\<close> and the decimal
  point position \<open>decpt\<close>; scientific notation when \<open>decpt \<le> -4\<close> or \<open>decpt > 16\<close>,
  otherwise positional notation with at least one digit after the point.
\<close>
definition float_repr :: "bool \<Rightarrow> nat \<Rightarrow> int \<Rightarrow> ustr" where
  "float_repr neg m e =
     (let ds = nat_digits m;
          decpt = (if m = 0 then 1 else int (length ds) + e);
          body =
            (if decpt \<le> -4 \<or> 16 < decpt then
               take 1 ds @ (if length ds = 1 then [] else chr CHR ''.'' # drop 1 ds)
               @ chr CHR ''e'' # exp_repr (decpt - 1)
             else if decpt \<le> 0 then
               ustr_of ''0.'' @ replicate (nat (- decpt)) (chr CHR ''0'') @ ds
             else if int (length ds) \<le> decpt then
               ds @ replicate (nat decpt - length ds) (chr CHR ''0'') @ ustr_of ''.0''
             else take (nat decpt) ds @ chr CHR ''.'' # drop (nat decpt) ds)
      in if neg then chr CHR ''-'' # body else body)"

section \<open>Strings\<close>

definition hex_digit :: "nat \<Rightarrow> nat" where
  "hex_digit d = (if d < 10 then chr CHR ''0'' + d else chr CHR ''a'' + (d - 10))"

text \<open>\<^verbatim>\<open>\uXXXX\<close> with four lower-case hex digits.\<close>
definition u_escape :: "nat \<Rightarrow> ustr" where
  "u_escape c =
     [backslash_ch, chr CHR ''u'', hex_digit (c div 4096 mod 16), hex_digit (c div 256 mod 16),
      hex_digit (c div 16 mod 16), hex_digit (c mod 16)]"

text \<open>
  \<^verbatim>\<open>ascii_escape_unichar\<close>: printable ASCII other than quote and backslash stands for
  itself; the two-character escapes; everything else as \<^verbatim>\<open>\uXXXX\<close>, code points
  above the BMP as a surrogate pair.
\<close>
definition ascii_escape :: "nat \<Rightarrow> ustr" where
  "ascii_escape c =
     (if 0x20 \<le> c \<and> c \<le> 0x7E \<and> c \<noteq> backslash_ch \<and> c \<noteq> quote_ch then [c]
      else if c = backslash_ch then [backslash_ch, backslash_ch]
      else if c = quote_ch then [backslash_ch, quote_ch]
      else if c = 8 then [backslash_ch, chr CHR ''b'']
      else if c = 12 then [backslash_ch, chr CHR ''f'']
      else if c = 10 then [backslash_ch, chr CHR ''n'']
      else if c = 13 then [backslash_ch, chr CHR ''r'']
      else if c = 9 then [backslash_ch, chr CHR ''t'']
      else if 0x10000 \<le> c then
        u_escape (0xD800 + (c - 0x10000) div 0x400) @ u_escape (0xDC00 + (c - 0x10000) mod 0x400)
      else u_escape c)"

definition str_repr :: "ustr \<Rightarrow> ustr" where
  "str_repr s = quote_ch # concat (map ascii_escape s) @ [quote_ch]"

section \<open>Documents\<close>

text \<open>
  \<^verbatim>\<open>json.dumps(o, allow_nan=False)\<close>: \<open>None\<close> is the \<^verbatim>\<open>ValueError\<close> raised
  on NaN and the infinities.
\<close>
fun json_dumps :: "json \<Rightarrow> ustr option"
and dumps_items :: "json list \<Rightarrow> ustr option"
and dumps_pairs :: "(ustr \<times> json) list \<Rightarrow> ustr option" where
  "json_dumps PyNone = Some (ustr_of ''null'')"
| "json_dumps (PyBool b) = Some (if b then ustr_of ''true'' else ustr_of ''false'')"
| "json_dumps (PyInt i) = Some (int_repr i)"
| "json_dumps (PyFloat (FloatVal neg m e)) = Some (float_repr neg m e)"
| "json_dumps (PyFloat (FloatInf neg)) = None"
| "json_dumps (PyFloat FloatNaN) = None"
| "json_dumps (PyStr s) = Some (str_repr s)"
| "json_dumps (PyList xs) =
     (case xs of
        [] \<Rightarrow> Some (ustr_of ''[]'')
      | _ \<Rightarrow> map_option (\<lambda>t. chr CHR ''['' # t @ [chr CHR '']'']) (dumps_items xs))"
| "json_dumps (PyDict ps) =
     (case ps of
        [] \<Rightarrow> Some (ustr_of ''{}'')
      | _ \<Rightarrow> map_option (\<lambda>t. chr CHR ''{'' # t @ [chr CHR ''}'']) (dumps_pairs ps))"
| "dumps_items [] = Some []"
| "dumps_items (x # xs) =
     (case json_dumps x of
        None \<Rightarrow> None
      | Some t \<Rightarrow>
          (case xs of
             [] \<Rightarrow> Some t
           | _ \<Rightarrow> map_option (\<lambda>u. t @ ustr_of '', '' @ u) (dumps_items xs)))"
| "dumps_pairs [] = Some []"
| "dumps_pairs ((k, v) # ps) =
     (case json_dumps v of
        None \<Rightarrow> None
      | Some t \<Rightarrow>
          let item = str_repr k @ ustr_of '': '' @ t in
          (case ps of
             [] \<Rightarrow> Some item
           | _ \<Rightarrow> map_option (\<lambda>u. item @ ustr_of '', '' @ u) (dumps_pairs ps)))"

section \<open>The encoder writes ASCII\<close>

lemma nat_digits_digits: "list_all is_digit (nat_digits n)"
proof (induction n rule: nat_digits.induct)
  case (1 n)
  show ?case
    using 1 unfolding is_digit_def by (subst nat_digits.simps) auto
qed

lemma nat_digits_ne [simp]: "nat_digits n \<noteq> []"
  by (subst nat_digits.simps) simp

lemma digits_ascii: "list_all is_digit t \<Longrightarrow> is_ascii t"
  by (induction t) (auto simp: is_digit_def)

lemma nat_digits_ascii [simp]: "is_ascii (nat_digits n)"
  by (rule digits_ascii [OF nat_digits_digits])

lemma int_repr_ascii: "is_ascii (int_repr i)"
  by (simp add: int_repr_def)

lemma exp_repr_ascii: "is_ascii (exp_repr x)"
  by (simp add: exp_repr_def Let_def)

lemma float_repr_ascii: "is_ascii (float_repr neg m e)"
proof -
  have "is_ascii (take n (nat_digits m))" "is_ascii (drop n (nat_digits m))" for n
    by auto
  then show ?thesis
    unfolding float_repr_def Let_def by (simp add: ustr_of_def exp_repr_ascii)
qed

lemma hex_digit_ascii: "d < 16 \<Longrightarrow> hex_digit d < 0x80"
  by (simp add: hex_digit_def)

lemma u_escape_ascii: "is_ascii (u_escape c)"
  by (simp add: u_escape_def hex_digit_ascii)

lemma ascii_escape_ascii: "is_ascii (ascii_escape c)"
  by (simp add: ascii_escape_def u_escape_ascii)

lemma str_repr_ascii: "is_ascii (str_repr s)"
  by (simp add: str_repr_def list_all_iff ascii_escape_ascii)

lemma json_dumps_ascii:
  "json_dumps v = Some t \<Longrightarrow> is_ascii t"
  "dumps_items xs = Some t \<Longrightarrow> is_ascii t"
  "dumps_pairs ps = Some t \<Longrightarrow> is_ascii t"
proof (induction v and xs and ps arbitrary: t and t and t rule: json_dumps_dumps_items_dumps_pairs.induct)
  case (8 xs)
  then show ?case by (cases xs) (auto simp: ustr_of_def)
next
  case (9 ps)
  then show ?case by (cases ps) (auto simp: ustr_of_def)
next
  case (11 x xs)
  then show ?case by (cases xs) (auto simp: ustr_of_def split: option.splits)
next
  case (13 k v ps)
  then show ?case by (cases ps) (auto simp: ustr_of_def str_repr_ascii Let_def split: option.splits)
qed (auto simp: ustr_of_def int_repr_ascii float_repr_ascii str_repr_ascii)

section \<open>Evaluation\<close>

text \<open>The definitions the simplifier needs to compute \<open>json_dumps\<close> on a concrete value.\<close>
lemmas dumps_eval = float_repr_def exp_repr_def int_repr_def nat_digits.simps str_repr_def
  ascii_escape_def u_escape_def hex_digit_def ustr_of_def

end
