(* ===== verification/JsonWf.thy ===== *)
theory JsonWf
  imports JsonDump
begin

text \<open>
  The values \<^verbatim>\<open>json.loads\<close> returns. \<open>json_wf b\<close> describes them: integers within
  the digit limit, floats as \<open>mk_float\<close> normalises them, strings without an adjacent
  surrogate pair, containers nested at most \<open>b\<close> deep and objects without repeated
  keys. By induction on the scanner's fuel, every value the scanner returns from text
  made of Unicode scalar values is of this kind (C20). The lemmas follow the scanner's
  parts: escapes (\<open>scan_escape_wf\<close>, \<open>scan_str_wf\<close>), numbers
  (\<open>match_number_wf\<close>, with \<open>norm_dec_wf\<close> for the normalisation of floats),
  arrays and objects (\<open>parse_wf_fuel\<close>).
\<close>

section \<open>Definitions\<close>

text \<open>No high surrogate directly followed by a low one: such a pair would be joined by a
  decoder reading the escapes \<^verbatim>\<open>json.dumps\<close> writes for it.\<close>
fun no_surrogate_pair :: "ustr \<Rightarrow> bool" where
  "no_surrogate_pair (a # b # r) =
     (\<not> (is_high_surrogate a \<and> is_low_surrogate b) \<and> no_surrogate_pair (b # r))"
| "no_surrogate_pair _ = True"


text \<open>The strings \<^verbatim>\<open>json.loads\<close> can return: code points below \<open>0x110000\<close>, no
  adjacent surrogate pair.\<close>
definition wf_str :: "ustr \<Rightarrow> bool" where
  "wf_str s \<longleftrightarrow> list_all (\<lambda>c. c < 0x110000) s \<and> no_surrogate_pair s"


text \<open>The text starts with a \<^verbatim>\<open>\u\<close> escape that a preceding high surrogate escape
  would join with or fail on.\<close>
definition low_escape_next :: "ustr \<Rightarrow> bool" where
  "low_escape_next r \<longleftrightarrow>
     take 2 r = [backslash_ch, chr CHR ''u''] \<and>
     (case hex4 (drop 2 r) of None \<Rightarrow> True | Some u \<Rightarrow> is_low_surrogate u)"


text \<open>The floats \<^verbatim>\<open>float(numstr)\<close> yields as \<open>mk_float\<close> normalises them: a zero, or a
  mantissa without trailing zeros whose value neither overflows nor underflows.\<close>
fun wf_float :: "pyfloat \<Rightarrow> bool" where
  "wf_float (FloatVal neg m e) =
     (if m = 0 then e = 0 else m mod 10 \<noteq> 0 \<and> \<not> float_overflows m e \<and> \<not> float_underflows m e)"
| "wf_float _ = True"


text \<open>
  The values \<^verbatim>\<open>json.loads\<close> returns with recursion budget \<open>b\<close>: integers within the
  4300-digit limit, normalised floats, well-formed strings, containers nested at most
  \<open>b\<close> deep, objects without repeated keys. These are the values on which
  \<^verbatim>\<open>json.dumps\<close> and \<^verbatim>\<open>json.loads\<close> are inverse.
\<close>
fun json_wf :: "nat \<Rightarrow> json \<Rightarrow> bool"
and items_wf :: "nat \<Rightarrow> json list \<Rightarrow> bool"
and pairs_wf :: "nat \<Rightarrow> (ustr \<times> json) list \<Rightarrow> bool" where
  "json_wf b PyNone = True"
| "json_wf b (PyBool x) = True"
| "json_wf b (PyInt i) = (length (nat_digits (nat \<bar>i\<bar>)) \<le> max_str_digits)"
| "json_wf b (PyFloat x) = wf_float x"
| "json_wf b (PyStr s) = wf_str s"
| "json_wf b (PyList xs) = (0 < b \<and> items_wf (b - 1) xs)"
| "json_wf b (PyDict ps) = (0 < b \<and> distinct (map fst ps) \<and> pairs_wf (b - 1) ps)"
| "items_wf b [] = True"
| "items_wf b (x # xs) = (json_wf b x \<and> items_wf b xs)"
| "pairs_wf b [] = True"
| "pairs_wf b ((k, v) # ps) = (wf_str k \<and> json_wf b v \<and> pairs_wf b ps)"

section \<open>Decimal digits\<close>

lemma foldl_digits:
  "foldl (\<lambda>acc d. 10 * acc + (d - chr CHR ''0'')) a ys =
   a * 10 ^ length ys + foldl (\<lambda>acc d. 10 * acc + (d - chr CHR ''0'')) 0 ys"
proof (induction ys arbitrary: a)
  case Nil
  then show ?case by simp
next
  case (Cons y ys)
  let ?f = "\<lambda>acc d. 10 * acc + (d - chr CHR ''0'')"
  have "foldl ?f a (y # ys) = (10 * a + (y - chr CHR ''0'')) * 10 ^ length ys + foldl ?f 0 ys"
    using Cons.IH [of "10 * a + (y - chr CHR ''0'')"] by simp
  moreover have "foldl ?f 0 (y # ys) = (y - chr CHR ''0'') * 10 ^ length ys + foldl ?f 0 ys"
    using Cons.IH [of "y - chr CHR ''0''"] by simp
  ultimately show ?case by (simp add: algebra_simps)
qed

lemma digits_val_append:
  "digits_val (xs @ ys) = digits_val xs * 10 ^ length ys + digits_val ys"
  unfolding digits_val_def foldl_append by (rule foldl_digits)

lemma digits_val_simps [simp]:
  "digits_val [] = 0"
  "digits_val [c] = c - chr CHR ''0''"
  by (simp_all add: digits_val_def)

lemma digits_val_snoc: "digits_val (xs @ [c]) = 10 * digits_val xs + (c - chr CHR ''0'')"
  using digits_val_append [of xs "[c]"] by simp

lemma digits_val_zeros [simp]: "digits_val (replicate k 48) = 0"
  by (induction k) (simp_all add: digits_val_def)

lemma digits_val_nat_digits [simp]: "digits_val (nat_digits n) = n"
proof (induction n rule: nat_digits.induct)
  case (1 n)
  then show ?case by (subst nat_digits.simps) (auto simp: digits_val_snoc)
qed

lemma nat_digits_hd: "n \<noteq> 0 \<Longrightarrow> hd (nat_digits n) \<noteq> chr CHR ''0''"
proof (induction n rule: nat_digits.induct)
  case (1 n)
  show ?case
  proof (cases "n < 10")
    case True
    with "1.prems" show ?thesis by (subst nat_digits.simps) simp
  next
    case False
    then have "n div 10 \<noteq> 0" by simp
    with "1.IH" False have "hd (nat_digits (n div 10)) \<noteq> chr CHR ''0''" by blast
    with False show ?thesis by (subst nat_digits.simps) simp
  qed
qed

section \<open>Strings the decoder returns\<close>

lemma hex_val_less: "hex_val c = Some d \<Longrightarrow> d < 16"
  by (auto simp: hex_val_def is_digit_def split: if_splits)

lemma hex_digits_less: "hex_digits acc cs = Some v \<Longrightarrow> v < (acc + 1) * 16 ^ length cs"
proof (induction acc cs rule: hex_digits.induct)
  case (2 acc c cs)
  then obtain d where d: "hex_val c = Some d" "hex_digits (acc * 16 + d) cs = Some v"
    by (auto split: option.splits)
  have "v < (acc * 16 + d + 1) * 16 ^ length cs" using "2.IH" [OF d(1)] d(2) by simp
  also have "\<dots> \<le> (acc + 1) * 16 * 16 ^ length cs"
    using hex_val_less [OF d(1)] by (intro mult_right_mono) simp_all
  finally show ?case by (simp only: length_Cons power_Suc mult.assoc)
qed simp

lemma hex4_less: "hex4 s = Some u \<Longrightarrow> u < 0x10000"
  using hex_digits_less [of 0 "take 4 s" u] by (simp add: hex4_def split: if_splits)

lemma simple_escape_less: "simple_escape e = Some c \<Longrightarrow> c < 0x80"
  by (auto simp: simple_escape_def split: if_splits)

lemma join_surrogates_range:
  assumes "is_high_surrogate u" "is_low_surrogate u2"
  shows "0x10000 \<le> join_surrogates u u2 \<and> join_surrogates u u2 < 0x110000"
proof -
  have "(u - 0xD800) * 0x400 \<le> 0x3FF * 0x400" using assms(1) unfolding is_high_surrogate_def by (simp, linarith)
  then show ?thesis using assms(2) by (simp add: join_surrogates_def is_low_surrogate_def)
qed

lemma scan_escape_wf:
  assumes "scan_escape r = Some (u, r')"
  shows "u < 0x110000 \<and> (is_low_surrogate u \<longrightarrow> low_escape_next (backslash_ch # r)) \<and>
         (is_high_surrogate u \<longrightarrow> \<not> low_escape_next r') \<and> set r' \<subseteq> set r"
proof (cases r)
  case Nil
  with assms show ?thesis by (simp add: scan_escape_def)
next
  case (Cons e t)
  show ?thesis
  proof (cases "e = chr CHR ''u''")
    case False
    with assms Cons obtain c where "simple_escape e = Some c" "u = c" "r' = t"
      by (auto simp: scan_escape_def)
    then show ?thesis
      using simple_escape_less [of e c] Cons
      by (auto simp: is_high_surrogate_def is_low_surrogate_def)
  next
    case True
    with assms Cons obtain h where h: "hex4 t = Some h" by (auto simp: scan_escape_def split: option.splits)
    have hl: "h < 0x10000" using hex4_less [OF h] .
    have sub: "set (drop n (drop 4 t)) \<subseteq> set r" for n
      using Cons set_drop_subset [of n "drop 4 t"] set_drop_subset [of 4 t] by auto
    show ?thesis
    proof (cases "is_high_surrogate h \<and> take 2 (drop 4 t) = [backslash_ch, chr CHR ''u'']")
      case False
      with assms Cons True h have "u = h" "r' = drop 4 t"
        by (auto simp: scan_escape_def Let_def)
      then show ?thesis
        using False hl h sub [of 0] Cons True
        by (auto simp: low_escape_next_def is_high_surrogate_def is_low_surrogate_def)
    next
      case hi: True
      with assms Cons True h obtain l where l: "hex4 (drop 2 (drop 4 t)) = Some l"
        by (auto simp: scan_escape_def Let_def split: option.splits)
      show ?thesis
      proof (cases "is_low_surrogate l")
        case True
        with assms Cons \<open>e = chr CHR ''u''\<close> h hi l
        have "u = join_surrogates h l" "r' = drop 6 (drop 4 t)"
          by (auto simp: scan_escape_def Let_def)
        then show ?thesis
          using join_surrogates_range [of h l] hi True sub [of 6]
          by (auto simp: is_high_surrogate_def is_low_surrogate_def)
      next
        case False
        with assms Cons \<open>e = chr CHR ''u''\<close> h hi l have "u = h" "r' = drop 4 t"
          by (auto simp: scan_escape_def Let_def)
        then show ?thesis
          using hi False l hl sub [of 0]
          by (auto simp: low_escape_next_def is_high_surrogate_def is_low_surrogate_def)
      qed
    qed
  qed
qed

lemma no_surrogate_pair_snoc:
  "no_surrogate_pair (xs @ [u]) \<longleftrightarrow>
   no_surrogate_pair xs \<and> \<not> (xs \<noteq> [] \<and> is_high_surrogate (last xs) \<and> is_low_surrogate u)"
  by (induction xs rule: no_surrogate_pair.induct) auto

lemma wf_str_snoc:
  "wf_str (xs @ [u]) \<longleftrightarrow>
   wf_str xs \<and> u < 0x110000 \<and> \<not> (xs \<noteq> [] \<and> is_high_surrogate (last xs) \<and> is_low_surrogate u)"
  by (auto simp: wf_str_def no_surrogate_pair_snoc)

lemma scalar_not_surrogate: "is_scalar c \<Longrightarrow> c < 0x110000 \<and> \<not> is_high_surrogate c \<and> \<not> is_low_surrogate c"
  by (auto simp: is_scalar_def is_high_surrogate_def is_low_surrogate_def)

lemma scan_str_wf:
  "scan_str acc s = Some (str, r) \<Longrightarrow> list_all is_scalar s \<Longrightarrow> wf_str acc \<Longrightarrow>
   (acc \<noteq> [] \<and> is_high_surrogate (last acc) \<longrightarrow> \<not> low_escape_next s) \<Longrightarrow>
   wf_str str \<and> set r \<subseteq> set s"
proof (induction acc s rule: scan_str.induct)
  case (2 acc c t)
  have c: "c < 0x110000 \<and> \<not> is_high_surrogate c \<and> \<not> is_low_surrogate c"
    using "2.prems"(2) scalar_not_surrogate by simp
  show ?case
  proof (cases "c = quote_ch")
    case True
    with "2.prems"(1,3) show ?thesis by auto
  next
    case nq: False
    show ?thesis
    proof (cases "c = backslash_ch")
      case True
      with nq "2.prems"(1) obtain u t' where e: "scan_escape t = Some (u, t')"
        and s: "scan_str (acc @ [u]) t' = Some (str, r)"
        by (auto split: option.splits)
      note w = scan_escape_wf [OF e]
      have "wf_str (acc @ [u])"
        using w "2.prems"(3,4) True by (auto simp: wf_str_snoc)
      moreover have "list_all is_scalar t'" using w "2.prems"(2) by (auto simp: list_all_iff)
      ultimately have "wf_str str \<and> set r \<subseteq> set t'"
        using "2.IH"(1) [OF nq True e refl s] w by simp
      then show ?thesis using w by auto
    next
      case False
      with nq "2.prems"(1) have s: "scan_str (acc @ [c]) t = Some (str, r)" and "\<not> c \<le> 0x1F"
        by (auto split: if_splits)
      have "wf_str (acc @ [c])" using c "2.prems"(3) by (simp add: wf_str_snoc)
      then have "wf_str str \<and> set r \<subseteq> set t"
        using "2.IH"(2) [OF nq False \<open>\<not> c \<le> 0x1F\<close> s] "2.prems"(2) c by simp
      then show ?thesis by auto
    qed
  qed
qed simp

section \<open>Numbers the decoder returns\<close>

lemma digits_val_less: "list_all is_digit ds \<Longrightarrow> digits_val ds < 10 ^ length ds"
proof (induction ds rule: rev_induct)
  case (snoc c ds)
  then have "digits_val ds < 10 ^ length ds" "c - 48 < 10" by (auto simp: is_digit_def)
  then show ?case by (simp add: digits_val_snoc)
qed simp

lemma nat_digits_length_le: "n < 10 ^ k \<Longrightarrow> 0 < k \<Longrightarrow> length (nat_digits n) \<le> k"
proof (induction n arbitrary: k rule: nat_digits.induct)
  case (1 n)
  show ?case
  proof (cases "n < 10")
    case True
    with "1.prems" show ?thesis by (subst nat_digits.simps) simp
  next
    case False
    have "k \<noteq> 1" using "1.prems"(1) False by auto
    then obtain k' where k: "k = Suc k'" "0 < k'"
      using "1.prems"(2) by (cases k) auto
    have "n div 10 < 10 ^ k'" using "1.prems"(1) k by (simp add: less_mult_imp_div_less)
    with "1.IH" [OF False] k False show ?thesis by (subst nat_digits.simps) simp
  qed
qed

lemma takeWhile_list_all: "list_all P (takeWhile P xs)"
  by (induction xs) auto

lemma is_digit_0: "is_digit (chr CHR ''0'')"
  by (simp add: is_digit_def)

lemma scan_int_part_digits:
  "scan_int_part s = Some (ip, r) \<Longrightarrow> ip \<noteq> [] \<and> list_all is_digit ip \<and> set r \<subseteq> set s"
  using is_digit_0
  by (auto simp: scan_int_part_def takeWhile_list_all split: list.splits if_splits dest: set_dropWhileD)

lemma scan_frac_set: "scan_frac s = (fp, r) \<Longrightarrow> set r \<subseteq> set s"
  by (auto simp: scan_frac_def split: list.splits if_splits dest: set_dropWhileD)

lemma scan_exp_set: "scan_exp s = (x, r) \<Longrightarrow> set r \<subseteq> set s"
  unfolding scan_exp_def Let_def
  by (auto split: list.splits if_splits dest!: set_dropWhileD dest: in_set_dropD)

lemma scaled_bound_shift:
  "(if 0 \<le> e then (t::nat) \<le> 10 * q * 10 ^ nat e else t * 10 ^ nat (- e) \<le> 10 * q) \<longleftrightarrow>
   (if 0 \<le> e + 1 then t \<le> q * 10 ^ nat (e + 1) else t * 10 ^ nat (- (e + 1)) \<le> q)"
proof (cases "0 \<le> e")
  case True
  then have "nat (e + 1) = Suc (nat e)" by simp
  with True show ?thesis by (simp add: ac_simps)
next
  case False
  show ?thesis
  proof (cases "e = -1")
    case True
    then show ?thesis by simp
  next
    case e: False
    with False have "nat (- e) = Suc (nat (- (e + 1)))" "\<not> 0 \<le> e + 1" by simp_all
    with False show ?thesis by (simp add: ac_simps)
  qed
qed

lemma tiny_shift:
  assumes "q \<noteq> 0" "1 < (p::nat)"
  shows "(e < 0 \<and> 10 * q * p \<le> 10 ^ nat (- e)) \<longleftrightarrow> (e + 1 < 0 \<and> q * p \<le> 10 ^ nat (- (e + 1)))"
proof (cases "e < -1")
  case True
  then have "nat (- e) = Suc (nat (- (e + 1)))" by simp
  with True show ?thesis by simp
next
  case False
  have "p \<le> q * p" using assms(1) by simp
  then have "1 < q * p" using assms(2) by linarith
  then have "10 < 10 * q * p" by simp
  with False show ?thesis by (cases "e = -1") auto
qed

lemma float_overflows_shift: "float_overflows (10 * q) e \<longleftrightarrow> float_overflows q (e + 1)"
  unfolding float_overflows_def by (rule scaled_bound_shift)

lemma float_underflows_shift:
  "q \<noteq> 0 \<Longrightarrow> float_underflows (10 * q) e \<longleftrightarrow> float_underflows q (e + 1)"
  unfolding float_underflows_def by (rule tiny_shift) simp_all

lemma norm_dec_wf:
  "m \<noteq> 0 \<Longrightarrow> norm_dec m e = (m', e') \<Longrightarrow>
   m' \<noteq> 0 \<and> m' mod 10 \<noteq> 0 \<and> (float_overflows m' e' \<longleftrightarrow> float_overflows m e) \<and>
   (float_underflows m' e' \<longleftrightarrow> float_underflows m e)"
proof (induction m e rule: norm_dec.induct)
  case (1 m e)
  show ?case
  proof (cases "m mod 10 = 0")
    case True
    then obtain q where q: "m = 10 * q" "q \<noteq> 0" using "1.prems"(1) by auto
    have "norm_dec (m div 10) (e + 1) = (m', e')" using "1.prems" True by simp
    then show ?thesis
      using "1.IH" [OF "1.prems"(1) True] q float_overflows_shift [of q e] float_underflows_shift [of q e]
      by simp
  next
    case False
    with "1.prems" show ?thesis by simp
  qed
qed

lemma norm_dec_0: "norm_dec 0 e = (0, 0)"
  by (subst norm_dec.simps) simp

lemma mk_float_wf_float: "wf_float (mk_float neg m e)"
proof (cases "float_overflows m e \<or> float_underflows m e \<or> m = 0")
  case True
  then show ?thesis by (auto simp: mk_float_def norm_dec_0 simp del: norm_dec.simps)
next
  case False
  obtain m' e' where n: "norm_dec m e = (m', e')" by fastforce
  with False norm_dec_wf [OF _ n] show ?thesis by (simp add: mk_float_def del: norm_dec.simps)
qed

section \<open>Every value the decoder returns is well formed\<close>

lemma list_all_subset: "list_all P s \<Longrightarrow> set r \<subseteq> set s \<Longrightarrow> list_all P r"
  by (auto simp: list_all_iff)

lemma skip_ws_set: "set (skip_ws s) \<subseteq> set s"
  by (simp add: skip_ws_def set_dropWhileD subsetI)

lemma sep_set:
  "list_sep r = SepEnd r' \<Longrightarrow> set r' \<subseteq> set r"
  "list_sep r = SepMore r' \<Longrightarrow> set r' \<subseteq> set r"
  "dict_sep r = SepEnd r' \<Longrightarrow> set r' \<subseteq> set r"
  "dict_sep r = SepMore r' \<Longrightarrow> set r' \<subseteq> set r"
  using skip_ws_set [of r] skip_ws_set [of "tl (skip_ws r)"] skip_ws_set [of "tl (skip_ws (tl (skip_ws r)))"]
  by (auto simp: list_sep_def dict_sep_def split: list.splits if_splits)

lemma dict_key_wf:
  "dict_key s = Some (k, r) \<Longrightarrow> list_all is_scalar s \<Longrightarrow> wf_str k \<and> set r \<subseteq> set s"
proof -
  assume a: "dict_key s = Some (k, r)" and s: "list_all is_scalar s"
  then obtain r0 c r1 where k: "scan_str [] s = Some (k, r0)" "skip_ws r0 = c # r1" "r = skip_ws r1"
    by (auto simp: dict_key_def split: option.splits list.splits if_splits)
  have "wf_str k \<and> set r0 \<subseteq> set s" using scan_str_wf [OF k(1) s] by (simp add: wf_str_def)
  moreover have "set r \<subseteq> set r0" using k(2,3) skip_ws_set [of r0] skip_ws_set [of r1] by auto
  ultimately show ?thesis by blast
qed

lemma match_number_wf:
  assumes "match_number s = Some (Inr (v, r))"
  shows "json_wf b v \<and> set r \<subseteq> set s"
proof -
  let ?neg = "take 1 s = [chr CHR ''-'']"
  let ?s1 = "if ?neg then drop 1 s else s"
  from assms obtain ip s2 fp s3 x where
    i: "scan_int_part ?s1 = Some (ip, s2)" and f: "scan_frac s2 = (fp, s3)"
    and e: "scan_exp s3 = (x, r)"
    by (auto simp: match_number_def Let_def split: option.splits prod.splits if_splits)
  have "set ?s1 \<subseteq> set s" by (simp add: set_drop_subset)
  then have set: "set r \<subseteq> set s"
    using scan_int_part_digits [OF i] scan_frac_set [OF f] scan_exp_set [OF e] by blast
  have ip: "ip \<noteq> []" "list_all is_digit ip" using scan_int_part_digits [OF i] by simp_all
  show ?thesis
  proof (cases "fp = [] \<and> x = None")
    case True
    with assms i f e have "length ip \<le> max_str_digits"
      and v: "v = PyInt (if ?neg then - int (digits_val ip) else int (digits_val ip))"
      by (auto simp: match_number_def Let_def split: if_splits)
    moreover have "length (nat_digits (digits_val ip)) \<le> length ip"
      using digits_val_less [OF ip(2)] ip(1) by (simp add: nat_digits_length_le)
    ultimately show ?thesis using set by simp
  next
    case False
    with assms i f e have "v = PyFloat (mk_float ?neg (digits_val (ip @ fp))
        ((case x of None \<Rightarrow> 0 | Some x \<Rightarrow> x) - int (length fp)))"
      by (auto simp: match_number_def Let_def)
    then show ?thesis using set mk_float_wf_float by simp
  qed
qed

lemma items_wf_snoc: "items_wf b (xs @ [x]) \<longleftrightarrow> items_wf b xs \<and> json_wf b x"
  by (induction xs) auto

lemma pairs_wf_update:
  "pairs_wf b ps \<Longrightarrow> wf_str k \<Longrightarrow> json_wf b v \<Longrightarrow> pairs_wf b (AList.update k v ps)"
  by (induction ps) auto

lemma parse_value_wf_step:
  assumes L: "\<And>b acc s v r. list_all is_scalar s \<Longrightarrow> items_wf b acc \<Longrightarrow>
      parse_list f b acc s = Some (Inr (v, r)) \<Longrightarrow> (\<exists>xs. v = PyList xs \<and> items_wf b xs) \<and> set r \<subseteq> set s"
    and D: "\<And>b acc s v r. list_all is_scalar s \<Longrightarrow> pairs_wf b acc \<Longrightarrow> distinct (map fst acc) \<Longrightarrow>
      parse_dict f b acc s = Some (Inr (v, r)) \<Longrightarrow>
      (\<exists>ps. v = PyDict ps \<and> distinct (map fst ps) \<and> pairs_wf b ps) \<and> set r \<subseteq> set s"
    and s: "list_all is_scalar s" and p: "parse_value (Suc f) b s = Some (Inr (v, r))"
  shows "json_wf b v \<and> set r \<subseteq> set s"
proof (cases s)
  case Nil
  with p show ?thesis by simp
next
  case (Cons c t)
  have t: "list_all is_scalar t" using s Cons by simp
  have ws: "set (d # r') \<subseteq> set s" if "skip_ws t = d # r'" for d r'
    using that skip_ws_set [of t] Cons by auto
  consider (q) "c = quote_ch" | (o) "c \<noteq> quote_ch" "c = chr CHR ''{''"
    | (l) "c \<noteq> quote_ch" "c \<noteq> chr CHR ''{''" "c = chr CHR ''[''"
    | (x) "c \<noteq> quote_ch" "c \<noteq> chr CHR ''{''" "c \<noteq> chr CHR ''[''" by blast
  then show ?thesis
  proof cases
    case q
    with p Cons obtain str where "scan_str [] t = Some (str, r)" "v = PyStr str"
      by (auto split: option.splits)
    then show ?thesis using scan_str_wf [of "[]" t str r] t Cons by (auto simp: wf_str_def)
  next
    case o
    with p Cons obtain d r' where b: "b \<noteq> 0" and d: "skip_ws t = d # r'"
      by (auto split: if_splits list.splits)
    show ?thesis
    proof (cases "d = chr CHR ''}''")
      case True
      with p Cons o b d show ?thesis using ws [OF d] by auto
    next
      case False
      with p Cons o b d have "d = quote_ch" "parse_dict f (b - 1) [] r' = Some (Inr (v, r))"
        by (auto split: if_splits)
      moreover have "list_all is_scalar r'" using ws [OF d] s by (auto simp: list_all_iff)
      ultimately show ?thesis using D [of r' "b - 1" "[]" v r] b ws [OF d] by auto
    qed
  next
    case l
    with p Cons obtain d r' where b: "b \<noteq> 0" and d: "skip_ws t = d # r'"
      by (auto split: if_splits list.splits)
    show ?thesis
    proof (cases "d = chr CHR '']''")
      case True
      with p Cons l b d show ?thesis using ws [OF d] by auto
    next
      case False
      with p Cons l b d have "parse_list f (b - 1) [] (d # r') = Some (Inr (v, r))"
        by auto
      moreover have "list_all is_scalar (d # r')" using ws [OF d] s by (auto simp: list_all_iff)
      ultimately show ?thesis using L [of "d # r'" "b - 1" "[]" v r] b ws [OF d] by auto
    qed
  next
    case x
    have sd: "set (drop n s) \<subseteq> set s" for n by (rule set_drop_subset)
    from p x Cons have "(v, r) \<in> {(PyNone, drop 4 s), (PyBool True, drop 4 s), (PyBool False, drop 5 s),
        (PyFloat FloatNaN, drop 3 s), (PyFloat (FloatInf False), drop 8 s), (PyFloat (FloatInf True), drop 9 s)} \<or>
        match_number s = Some (Inr (v, r))"
      by (auto split: if_splits option.splits)
    then show ?thesis using sd match_number_wf [of s v r b] by auto
  qed
qed

lemma parse_wf_fuel:
  "(\<forall>b s v r. list_all is_scalar s \<longrightarrow> parse_value f b s = Some (Inr (v, r)) \<longrightarrow>
      json_wf b v \<and> set r \<subseteq> set s) \<and>
   (\<forall>b acc s v r. list_all is_scalar s \<longrightarrow> items_wf b acc \<longrightarrow> parse_list f b acc s = Some (Inr (v, r)) \<longrightarrow>
      (\<exists>xs. v = PyList xs \<and> items_wf b xs) \<and> set r \<subseteq> set s) \<and>
   (\<forall>b acc s v r. list_all is_scalar s \<longrightarrow> pairs_wf b acc \<longrightarrow> distinct (map fst acc) \<longrightarrow>
      parse_dict f b acc s = Some (Inr (v, r)) \<longrightarrow>
      (\<exists>ps. v = PyDict ps \<and> distinct (map fst ps) \<and> pairs_wf b ps) \<and> set r \<subseteq> set s)"
proof (induction f)
  case 0
  then show ?case by simp
next
  case (Suc f)
  have V: "json_wf b v \<and> set r \<subseteq> set s"
    if "list_all is_scalar s" "parse_value (Suc f) b s = Some (Inr (v, r))" for b s v r
    using Suc.IH that by (intro parse_value_wf_step) blast+
  have L: "(\<exists>xs. v = PyList xs \<and> items_wf b xs) \<and> set r \<subseteq> set s"
    if s: "list_all is_scalar s" and acc: "items_wf b acc"
      and a: "parse_list (Suc f) b acc s = Some (Inr (v, r))" for b acc s v r
  proof -
    from a obtain v0 r0 where p: "parse_value (Suc f) b s = Some (Inr (v0, r0))"
      by (auto split: option.splits sum.splits)
    have "json_wf b v0 \<and> set r0 \<subseteq> set s" by (rule V [OF s p])
    then have w: "json_wf b v0" "set r0 \<subseteq> set s" by simp_all
    with acc have acc': "items_wf b (acc @ [v0])" by (simp add: items_wf_snoc)
    from a p have "list_sep r0 = SepEnd r \<and> v = PyList (acc @ [v0]) \<or>
        (\<exists>r1. list_sep r0 = SepMore r1 \<and> parse_list f b (acc @ [v0]) r1 = Some (Inr (v, r)))"
      by (auto split: sep.splits)
    then show ?thesis
    proof (elim disjE exE conjE)
      assume "list_sep r0 = SepEnd r" "v = PyList (acc @ [v0])"
      with w acc' show ?thesis using sep_set(1) by blast
    next
      fix r1 assume r1: "list_sep r0 = SepMore r1" "parse_list f b (acc @ [v0]) r1 = Some (Inr (v, r))"
      have "set r1 \<subseteq> set s" using sep_set(2) [OF r1(1)] w(2) by blast
      moreover have "list_all is_scalar r1" using list_all_subset [OF s calculation] .
      ultimately show ?thesis using Suc.IH acc' r1(2) by blast
    qed
  qed
  have D: "(\<exists>ps. v = PyDict ps \<and> distinct (map fst ps) \<and> pairs_wf b ps) \<and> set r \<subseteq> set s"
    if s: "list_all is_scalar s" and acc: "pairs_wf b acc" "distinct (map fst acc)"
      and a: "parse_dict (Suc f) b acc s = Some (Inr (v, r))" for b acc s v r
  proof -
    from a obtain k r0 where key: "dict_key s = Some (k, r0)"
      by (auto split: option.splits)
    note kw = dict_key_wf [OF key s]
    with a key obtain v0 r1 where p: "parse_value (Suc f) b r0 = Some (Inr (v0, r1))"
      by (auto split: option.splits sum.splits)
    have sr0: "list_all is_scalar r0" using list_all_subset [OF s] kw by blast
    have "json_wf b v0 \<and> set r1 \<subseteq> set r0" by (rule V [OF sr0 p])
    with kw have w: "json_wf b v0" "set r1 \<subseteq> set s" by auto
    let ?acc = "AList.update k v0 acc"
    have acc': "pairs_wf b ?acc" "distinct (map fst ?acc)"
      using pairs_wf_update [OF acc(1)] kw w(1) distinct_update [OF acc(2)] by simp_all
    from a key p have "dict_sep r1 = SepEnd r \<and> v = PyDict ?acc \<or>
        (\<exists>r2. dict_sep r1 = SepMore r2 \<and> parse_dict f b ?acc r2 = Some (Inr (v, r)))"
      by (auto split: sep.splits)
    then show ?thesis
    proof (elim disjE exE conjE)
      assume "dict_sep r1 = SepEnd r" "v = PyDict ?acc"
      with w acc' show ?thesis using sep_set(3) by blast
    next
      fix r2 assume r2: "dict_sep r1 = SepMore r2" "parse_dict f b ?acc r2 = Some (Inr (v, r))"
      have "set r2 \<subseteq> set s" using sep_set(4) [OF r2(1)] w(2) by blast
      moreover have "list_all is_scalar r2" using list_all_subset [OF s calculation] .
      ultimately show ?thesis using Suc.IH acc' r2(2) by blast
    qed
  qed
  from V L D show ?case by blast
qed

lemma json_loads_Inr:
  "json_loads d s = Inr v \<Longrightarrow> \<exists>r. parse_value (Suc (length s)) d (skip_ws s) = Some (Inr (v, r))"
  by (auto simp: json_loads_def split: if_splits option.splits sum.splits prod.splits)

text \<open>
  C20. On text made of Unicode scalar values (what \<^verbatim>\<open>bytes.decode('utf-8')\<close> returns),
  every object \<^verbatim>\<open>json.loads\<close> returns is well formed for the recursion budget it
  was given: its integers are within the digit limit, its floats normalised and finite
  or infinite as \<^verbatim>\<open>float\<close> makes them, its strings free of joined-up surrogate pairs,
  its containers nested within the budget and its objects free of repeated keys.
\<close>
theorem json_loads_wf:
  assumes "list_all is_scalar s" "json_loads d s = Inr v"
  shows "json_wf d v"
proof -
  from json_loads_Inr [OF assms(2)] obtain r
    where "parse_value (Suc (length s)) d (skip_ws s) = Some (Inr (v, r))" ..
  moreover have "list_all is_scalar (skip_ws s)" using list_all_subset [OF assms(1) skip_ws_set] .
  ultimately show ?thesis using parse_wf_fuel by blast
qed

theorem json_loads_wf_witness:
  "list_all is_scalar (qtext ''{`id`:[`caf'' @ [0xE9] @ qtext ''`,1.20,null]}'') \<and>
   json_loads 2 (qtext ''{`id`:[`caf'' @ [0xE9] @ qtext ''`,1.20,null]}'') =
     Inr (PyDict [(ustr_of ''id'', PyList [PyStr (ustr_of ''caf'' @ [0xE9]), PyFloat (FloatVal False 12 (-1)), PyNone])]) \<and>
   json_wf 2 (PyDict [(ustr_of ''id'', PyList [PyStr (ustr_of ''caf'' @ [0xE9]), PyFloat (FloatVal False 12 (-1)), PyNone])])"
proof -
  let ?s = "qtext ''{`id`:[`caf'' @ [0xE9] @ qtext ''`,1.20,null]}''"
  let ?v = "PyDict [(ustr_of ''id'', PyList [PyStr (ustr_of ''caf'' @ [0xE9]), PyFloat (FloatVal False 12 (-1)), PyNone])]"
  have sc: "list_all is_scalar ?s" by (simp add: qtext_def is_scalar_def)
  have l: "json_loads 2 ?s = Inr ?v" by (simp add: json_eval)
  show ?thesis using json_loads_wf [OF sc l] sc l by simp
qed

end
