(* ===== verification/JsonRoundtrip.thy ===== *)
theory JsonRoundtrip
  imports JsonWf
begin

text \<open>
  How \<^verbatim>\<open>json.loads\<close> (theory Json) and \<^verbatim>\<open>json.dumps\<close> (theory JsonDump) fit together.
  \<open>json_wf\<close> describes the values the decoder returns; the decoder returns only such
  values when its input consists of Unicode scalar values (C20), and on such values the
  decoder inverts the encoder (\<open>json_loads_dumps\<close>), so that re-encoding a parsed
  document and parsing it again gives the same object (C19). The lemmas follow the
  encoder's parts: digits, escapes, number formats, containers.
\<close>

section \<open>Definitions\<close>

text \<open>The text after a number, as \<^verbatim>\<open>_match_number_unicode\<close> sees it.\<close>
definition starts_digit :: "ustr \<Rightarrow> bool" where
  "starts_digit r \<longleftrightarrow> r \<noteq> [] \<and> is_digit (hd r)"


text \<open>A digit string without leading zeros: the integer part of a JSON number.\<close>
definition canonical :: "ustr \<Rightarrow> bool" where
  "canonical ds \<longleftrightarrow> ds \<noteq> [] \<and> list_all is_digit ds \<and> (ds = [chr CHR ''0''] \<or> hd ds \<noteq> chr CHR ''0'')"


text \<open>Text after which a number ends: no digit, fraction or exponent continues it.\<close>
definition num_end :: "ustr \<Rightarrow> bool" where
  "num_end r \<longleftrightarrow> \<not> starts_digit r \<and> take 1 r \<noteq> [chr CHR ''.''] \<and>
     take 1 r \<noteq> [chr CHR ''e''] \<and> take 1 r \<noteq> [chr CHR ''E'']"


text \<open>How a document \<^verbatim>\<open>json.dumps\<close> writes starts: not with white space or a closing
  bracket.\<close>
definition json_start :: "ustr \<Rightarrow> bool" where
  "json_start t \<longleftrightarrow> t \<noteq> [] \<and> \<not> json_ws (hd t) \<and> hd t \<noteq> chr CHR '']'' \<and> hd t \<noteq> chr CHR ''}''"


section \<open>The escapes of the encoder are read back\<close>

lemma hex_val_hex_digit: "d < 16 \<Longrightarrow> hex_val (hex_digit d) = Some d"
  by (auto simp: hex_val_def hex_digit_def is_digit_def)

lemma div_mod_16: "(q::nat) div 16 * 16 + q mod 16 = q"
  by simp

lemma base16_4:
  assumes c: "(c::nat) < 0x10000"
  shows "((c div 4096 mod 16 * 16 + c div 256 mod 16) * 16 + c div 16 mod 16) * 16 + c mod 16 = c"
proof -
  have a: "c div 4096 mod 16 = c div 256 div 16" using c by (simp add: div_mult2_eq [symmetric])
  have b: "c div 256 = c div 16 div 16" by (simp add: div_mult2_eq [symmetric])
  have "c div 4096 mod 16 * 16 + c div 256 mod 16 = c div 256"
    unfolding a by (rule div_mod_16)
  then have "(c div 4096 mod 16 * 16 + c div 256 mod 16) * 16 + c div 16 mod 16 = c div 16"
    unfolding b by (simp only: div_mod_16)
  then show ?thesis by (simp only: div_mod_16)
qed

lemma hex4_u_escape:
  assumes "c < 0x10000"
  shows "hex4 (drop 2 (u_escape c) @ r) = Some c"
proof -
  have "hex4 (drop 2 (u_escape c) @ r) =
        Some (((c div 4096 mod 16 * 16 + c div 256 mod 16) * 16 + c div 16 mod 16) * 16 + c mod 16)"
    by (simp add: u_escape_def hex4_def hex_val_hex_digit)
  then show ?thesis unfolding base16_4 [OF assms] .
qed

lemma u_escape_split: "u_escape c = backslash_ch # chr CHR ''u'' # drop 2 (u_escape c)"
  by (simp add: u_escape_def)

lemma length_drop_u_escape [simp]: "length (drop 2 (u_escape c)) = 4"
  by (simp add: u_escape_def)

lemma scan_escape_u:
  assumes "c < 0x10000" "\<not> (is_high_surrogate c \<and> low_escape_next tl_txt)"
  shows "scan_escape (chr CHR ''u'' # drop 2 (u_escape c) @ tl_txt) = Some (c, tl_txt)"
proof -
  have h: "hex4 (drop 2 (u_escape c) @ tl_txt) = Some c" by (rule hex4_u_escape [OF assms(1)])
  have d: "drop 4 (drop 2 (u_escape c) @ tl_txt) = tl_txt" by (simp add: u_escape_def)
  show ?thesis
    using assms(2) unfolding scan_escape_def Let_def low_escape_next_def
    by (auto simp add: h d simp del: drop_append split: option.splits)
qed

lemma surrogate_pair_parts:
  assumes "0x10000 \<le> c" "c < 0x110000"
  shows "is_high_surrogate (0xD800 + (c - 0x10000) div 0x400)"
    and "is_low_surrogate (0xDC00 + (c - 0x10000) mod 0x400)"
    and "join_surrogates (0xD800 + (c - 0x10000) div 0x400) (0xDC00 + (c - 0x10000) mod 0x400) = c"
  using assms by (auto simp: is_high_surrogate_def is_low_surrogate_def join_surrogates_def)

lemma scan_escape_pair:
  assumes "0x10000 \<le> c" "c < 0x110000"
  shows "scan_escape (chr CHR ''u'' # drop 2 (u_escape (0xD800 + (c - 0x10000) div 0x400)) @
                      u_escape (0xDC00 + (c - 0x10000) mod 0x400) @ tl_txt) = Some (c, tl_txt)"
proof -
  let ?hi = "0xD800 + (c - 0x10000) div 0x400" and ?lo = "0xDC00 + (c - 0x10000) mod 0x400"
  let ?r2 = "backslash_ch # chr CHR ''u'' # drop 2 (u_escape ?lo) @ tl_txt"
  have b: "?hi < 0x10000" "?lo < 0x10000" using assms by auto
  have e: "u_escape ?lo @ tl_txt = ?r2" by (subst u_escape_split) simp
  have h1: "hex4 (drop 2 (u_escape ?hi) @ ?r2) = Some ?hi" by (rule hex4_u_escape [OF b(1)])
  have d1: "drop 4 (drop 2 (u_escape ?hi) @ ?r2) = ?r2" by (simp add: u_escape_def)
  have t2: "take 2 ?r2 = [backslash_ch, chr CHR ''u'']" by simp
  have h2: "hex4 (drop 2 ?r2) = Some ?lo" using hex4_u_escape [OF b(2)] by simp
  have d6: "drop 6 ?r2 = tl_txt" by (simp add: u_escape_def)
  show ?thesis
    unfolding e scan_escape_def Let_def
    using surrogate_pair_parts [OF assms] h1 d1 t2 h2 d6
    by (simp del: drop_append take_append)
qed

lemma ascii_escape_cases:
  obtains (plain) "0x20 \<le> c" "c \<le> 0x7E" "c \<noteq> backslash_ch" "c \<noteq> quote_ch" "ascii_escape c = [c]"
  | (simple) e where "ascii_escape c = [backslash_ch, e]" "simple_escape e = Some c" "e \<noteq> chr CHR ''u''"
  | (pair) "0x10000 \<le> c"
      "ascii_escape c = u_escape (0xD800 + (c - 0x10000) div 0x400) @ u_escape (0xDC00 + (c - 0x10000) mod 0x400)"
  | (single) "c < 0x10000" "ascii_escape c = u_escape c"
proof -
  consider "0x20 \<le> c \<and> c \<le> 0x7E \<and> c \<noteq> backslash_ch \<and> c \<noteq> quote_ch"
    | "c = backslash_ch" | "c = quote_ch" | "c = 8" | "c = 12" | "c = 10" | "c = 13" | "c = 9"
    | "0x10000 \<le> c" | "\<not> (0x20 \<le> c \<and> c \<le> 0x7E \<and> c \<noteq> backslash_ch \<and> c \<noteq> quote_ch)"
        "c \<notin> {backslash_ch, quote_ch, 8, 12, 10, 13, 9}" "c < 0x10000"
    by force
  then show ?thesis
  proof cases
    case 1 then show ?thesis by (intro plain) (simp_all add: ascii_escape_def)
  next
    case 2 then show ?thesis by (intro simple [of backslash_ch]) (simp_all add: ascii_escape_def simple_escape_def)
  next
    case 3 then show ?thesis by (intro simple [of quote_ch]) (simp_all add: ascii_escape_def simple_escape_def)
  next
    case 4 then show ?thesis by (intro simple [of "chr CHR ''b''"]) (simp_all add: ascii_escape_def simple_escape_def)
  next
    case 5 then show ?thesis by (intro simple [of "chr CHR ''f''"]) (simp_all add: ascii_escape_def simple_escape_def)
  next
    case 6 then show ?thesis by (intro simple [of "chr CHR ''n''"]) (simp_all add: ascii_escape_def simple_escape_def)
  next
    case 7 then show ?thesis by (intro simple [of "chr CHR ''r''"]) (simp_all add: ascii_escape_def simple_escape_def)
  next
    case 8 then show ?thesis by (intro simple [of "chr CHR ''t''"]) (simp_all add: ascii_escape_def simple_escape_def)
  next
    case 9 then show ?thesis by (intro pair) (simp_all add: ascii_escape_def)
  next
    case 10 then show ?thesis by (intro single) (auto simp: ascii_escape_def)
  qed
qed

lemma wf_str_Cons: "wf_str (c # s) \<Longrightarrow> wf_str s"
  by (cases s) (simp_all add: wf_str_def)

lemma high_not_low: "is_high_surrogate u \<Longrightarrow> \<not> is_low_surrogate u"
  by (simp add: is_high_surrogate_def is_low_surrogate_def)

lemma no_low_escape_next:
  assumes "wf_str (c # s)" "is_high_surrogate c"
  shows "\<not> low_escape_next (concat (map ascii_escape s) @ quote_ch # rest)"
proof (cases s)
  case Nil
  then show ?thesis by (simp add: low_escape_next_def)
next
  case (Cons c' s')
  have c': "c' < 0x110000" "\<not> is_low_surrogate c'" using assms Cons by (auto simp: wf_str_def)
  let ?m = "concat (map ascii_escape s') @ quote_ch # rest"
  show ?thesis
  proof (cases c' rule: ascii_escape_cases)
    case plain
    then show ?thesis using Cons by (simp add: low_escape_next_def)
  next
    case (simple e)
    then show ?thesis using Cons by (simp add: low_escape_next_def)
  next
    case pair
    let ?hi = "0xD800 + (c' - 0x10000) div 0x400"
    have "?hi < 0x10000" "is_high_surrogate ?hi"
      using pair(1) c'(1) surrogate_pair_parts [of c'] by auto
    then show ?thesis using pair Cons hex4_u_escape [of ?hi]
      by (simp add: low_escape_next_def u_escape_def high_not_low)
  next
    case single
    then show ?thesis using Cons c'(2) hex4_u_escape [of c']
      by (simp add: low_escape_next_def u_escape_def)
  qed
qed

lemma scan_str_escape_step:
  assumes "c < 0x110000" "is_high_surrogate c \<Longrightarrow> \<not> low_escape_next m"
  shows "scan_str acc (ascii_escape c @ m) = scan_str (acc @ [c]) m"
proof (cases c rule: ascii_escape_cases)
  case plain
  then show ?thesis by simp
next
  case (simple e)
  then show ?thesis by (simp add: scan_escape_def)
next
  case pair
  then show ?thesis
    using scan_escape_pair [OF pair(1) assms(1), of m] unfolding pair(2)
    by (subst u_escape_split) simp
next
  case single
  have "scan_escape (chr CHR ''u'' # drop 2 (u_escape c) @ m) = Some (c, m)"
    using scan_escape_u [OF single(1), of m] assms(2) by blast
  then show ?thesis unfolding single(2) by (subst u_escape_split) simp
qed

lemma scan_str_escaped:
  "wf_str s \<Longrightarrow> scan_str acc (concat (map ascii_escape s) @ quote_ch # rest) = Some (acc @ s, rest)"
proof (induction s arbitrary: acc)
  case Nil
  then show ?case by simp
next
  case (Cons c s)
  have "c < 0x110000" using Cons.prems by (simp add: wf_str_def)
  then have "scan_str acc (ascii_escape c @ concat (map ascii_escape s) @ quote_ch # rest) =
             scan_str (acc @ [c]) (concat (map ascii_escape s) @ quote_ch # rest)"
    using no_low_escape_next [OF Cons.prems] by (rule scan_str_escape_step)
  with Cons.IH [OF wf_str_Cons [OF Cons.prems]] show ?case by simp
qed

section \<open>The numbers of the encoder are read back\<close>

lemma takeWhile_digits:
  "list_all is_digit ds \<Longrightarrow> \<not> starts_digit r \<Longrightarrow> takeWhile is_digit (ds @ r) = ds"
  by (induction ds) (cases r, auto simp: starts_digit_def)

lemma dropWhile_digits:
  "list_all is_digit ds \<Longrightarrow> \<not> starts_digit r \<Longrightarrow> dropWhile is_digit (ds @ r) = r"
  by (induction ds) (cases r, auto simp: starts_digit_def)

lemmas digits_split = takeWhile_digits dropWhile_digits

text \<open>\<^verbatim>\<open>repr\<close> writes canonical decimals, which \<^verbatim>\<open>_match_number_unicode\<close> reads whole.\<close>

lemma canonical_nat_digits: "canonical (nat_digits n)"
proof (cases "n = 0")
  case True
  then show ?thesis by (simp add: canonical_def nat_digits.simps is_digit_def)
next
  case False
  then show ?thesis using nat_digits_hd [of n] nat_digits_digits [of n] by (simp add: canonical_def)
qed

lemma scan_int_part_canonical:
  assumes "canonical ds" "\<not> starts_digit r"
  shows "scan_int_part (ds @ r) = Some (ds, r)"
proof -
  obtain d ds' where ds: "ds = d # ds'" using assms(1) by (cases ds) (auto simp: canonical_def)
  show ?thesis
  proof (cases "d = chr CHR ''0''")
    case True
    then have "ds' = []" using assms(1) ds by (auto simp: canonical_def)
    with True ds show ?thesis by (simp add: scan_int_part_def)
  next
    case False
    have "is_digit d" "list_all is_digit ds'" using assms(1) ds by (auto simp: canonical_def)
    with False ds assms(2) show ?thesis by (simp add: scan_int_part_def digits_split)
  qed
qed

lemma scan_frac_digits:
  "list_all is_digit fs \<Longrightarrow> fs \<noteq> [] \<Longrightarrow> \<not> starts_digit r \<Longrightarrow>
   scan_frac (chr CHR ''.'' # fs @ r) = (fs, r)"
  by (cases fs) (auto simp: scan_frac_def digits_split)

lemma scan_frac_none: "take 1 r \<noteq> [chr CHR ''.''] \<Longrightarrow> scan_frac r = ([], r)"
  by (auto simp: scan_frac_def split: list.splits)

lemma scan_exp_none: "take 1 r \<noteq> [chr CHR ''e''] \<Longrightarrow> take 1 r \<noteq> [chr CHR ''E''] \<Longrightarrow> scan_exp r = (None, r)"
  by (auto simp: scan_exp_def split: list.splits)

lemma digits_val_zero_Cons [simp]: "digits_val (48 # ds) = digits_val ds"
  using digits_val_append [of "[chr CHR ''0'']" ds] by simp

lemma scan_exp_repr:
  assumes "\<not> starts_digit r"
  shows "scan_exp (chr CHR ''e'' # exp_repr x @ r) = (Some x, r)"
proof -
  define ds where "ds = nat_digits (nat \<bar>x\<bar>)"
  define pad where "pad = (if length ds < 2 then chr CHR ''0'' # ds else ds)"
  have e: "exp_repr x = (if x < 0 then chr CHR ''-'' else chr CHR ''+'') # pad"
    by (simp add: exp_repr_def pad_def ds_def Let_def)
  have p: "list_all is_digit pad" "pad \<noteq> []" "digits_val pad = nat \<bar>x\<bar>"
    using nat_digits_digits [of "nat \<bar>x\<bar>"] by (auto simp: pad_def ds_def is_digit_def)
  have t: "takeWhile is_digit (pad @ r) = pad" "dropWhile is_digit (pad @ r) = r"
    using p(1) assms by (simp_all add: digits_split)
  show ?thesis
    unfolding e using p(2,3) t by (simp add: scan_exp_def Let_def)
qed

lemma norm_dec_shift: "m mod 10 \<noteq> 0 \<Longrightarrow> norm_dec (m * 10 ^ j) x = (m, x + int j)"
proof (induction j arbitrary: x)
  case 0
  then show ?case by (subst norm_dec.simps) auto
next
  case (Suc j)
  have "m \<noteq> 0" using Suc.prems by auto
  then have "norm_dec (m * 10 ^ Suc j) x = norm_dec (m * 10 ^ j) (x + 1)"
    by (subst norm_dec.simps) (simp add: mult.left_commute)
  with Suc.IH [OF Suc.prems] show ?case by simp
qed

lemma mk_float_wf:
  "wf_float (FloatVal neg m e) \<Longrightarrow> m \<noteq> 0 \<Longrightarrow> mk_float neg m e = FloatVal neg m e"
  using norm_dec_shift [of m 0 e] by (simp add: mk_float_def)

lemma mk_float_scaled:
  assumes "wf_float (FloatVal neg m e)" "m \<noteq> 0" "0 \<le> e"
  shows "mk_float neg (m * 10 ^ (nat e + 1)) (-1) = FloatVal neg m e"
proof -
  have nov: "\<not> float_overflows m e" "m mod 10 \<noteq> 0" using assms by auto
  have "float_overflows (m * 10 ^ (nat e + 1)) (-1) = float_overflows m e"
    using assms(3) by (simp add: float_overflows_def mult.commute mult.left_commute)
  moreover have "\<not> float_underflows (m * 10 ^ (nat e + 1)) (-1)"
  proof -
    have "10 < m * 10 ^ (nat e + 1) * 2 ^ 1075"
      using assms(2) by (simp add: less_le_trans [of 10 "10 * 2 ^ 1075"])
    then show ?thesis by (simp add: float_underflows_def)
  qed
  ultimately show ?thesis
    using nov norm_dec_shift [of m "nat e + 1" "-1"] assms(3) by (simp add: mk_float_def)
qed

lemma mk_float_zero: "mk_float neg 0 (-1) = FloatVal neg 0 0"
  by (simp add: mk_float_def float_overflows_def float_underflows_def)

lemma num_end_simps:
  "num_end r \<Longrightarrow> \<not> starts_digit r"
  "num_end r \<Longrightarrow> scan_frac r = ([], r)"
  "num_end r \<Longrightarrow> scan_exp r = (None, r)"
  by (simp_all add: num_end_def scan_frac_none scan_exp_none)

lemma canonical_hd: "canonical ds \<Longrightarrow> ds \<noteq> [] \<and> is_digit (hd ds)"
  by (cases ds) (auto simp: canonical_def)

lemma digit_not_minus: "is_digit c \<Longrightarrow> c \<noteq> chr CHR ''-''"
  by (simp add: is_digit_def)

lemma match_number_body:
  assumes "body \<noteq> []" "hd body \<noteq> chr CHR ''-''"
    and "scan_int_part (body @ r) = Some (ip, s2)" "scan_frac s2 = (fp, s3)" "scan_exp s3 = (ex, r')"
  shows "match_number ((if neg then chr CHR ''-'' # body else body) @ r) =
           (if fp = [] \<and> ex = None then
              (if max_str_digits < length ip then Some (Inl ValueError)
               else Some (Inr (PyInt (if neg then - int (digits_val ip) else int (digits_val ip)), r')))
            else Some (Inr (PyFloat (mk_float neg (digits_val (ip @ fp))
                                       ((case ex of None \<Rightarrow> 0 | Some x \<Rightarrow> x) - int (length fp))), r')))"
proof -
  have "take 1 (body @ r) \<noteq> [chr CHR ''-'']" using assms(1,2) by (cases body) auto
  then show ?thesis using assms(3-5) by (cases neg) (simp_all add: match_number_def)
qed

lemma match_number_int:
  assumes "length (nat_digits (nat \<bar>i\<bar>)) \<le> max_str_digits" "num_end r"
  shows "match_number (int_repr i @ r) = Some (Inr (PyInt i, r))"
proof -
  let ?ds = "nat_digits (nat \<bar>i\<bar>)"
  have c: "canonical ?ds" by (rule canonical_nat_digits)
  then have h: "?ds \<noteq> []" "hd ?ds \<noteq> chr CHR ''-''"
    using canonical_hd digit_not_minus by blast+
  have ip: "scan_int_part (?ds @ r) = Some (?ds, r)"
    using scan_int_part_canonical [OF c] num_end_simps(1) [OF assms(2)] .
  have e: "int_repr i @ r = (if i < 0 then chr CHR ''-'' # ?ds else ?ds) @ r"
    by (simp add: int_repr_def)
  show ?thesis
    unfolding e using match_number_body [OF h ip num_end_simps(2,3) [OF assms(2)], of "i < 0"] assms(1)
    by simp
qed

lemma canonical_single: "is_digit d \<Longrightarrow> canonical [d]"
  by (simp add: canonical_def)

lemma nat_digits_Cons:
  assumes "m \<noteq> 0" "nat_digits m = d # ds'"
  shows "is_digit d" "d \<noteq> chr CHR ''0''" "list_all is_digit ds'"
  using assms nat_digits_hd [of m] nat_digits_digits [of m] by auto

lemma digits_val_Cons_nat_digits: "nat_digits m = d # ds' \<Longrightarrow> digits_val (d # ds') = m"
  by (metis digits_val_nat_digits)

lemma match_number_sci:
  assumes wf: "wf_float (FloatVal neg m e)" and m: "m \<noteq> 0" and r: "num_end r"
    and ds: "nat_digits m = d # ds'"
    and b: "B = [d] @ (if ds' = [] then [] else chr CHR ''.'' # ds') @ chr CHR ''e'' # exp_repr (int (length ds') + e)"
  shows "match_number ((if neg then chr CHR ''-'' # B else B) @ r) = Some (Inr (PyFloat (FloatVal neg m e), r))"
proof -
  note dd = nat_digits_Cons [OF m ds]
  let ?T = "(if ds' = [] then [] else chr CHR ''.'' # ds') @ chr CHR ''e'' # exp_repr (int (length ds') + e) @ r"
  have nd: "\<not> starts_digit ?T" by (simp add: starts_digit_def is_digit_def)
  have ip: "scan_int_part ([d] @ ?T) = Some ([d], ?T)"
    by (rule scan_int_part_canonical [OF canonical_single [OF dd(1)] nd])
  have ex: "scan_exp (chr CHR ''e'' # exp_repr (int (length ds') + e) @ r) = (Some (int (length ds') + e), r)"
    using scan_exp_repr num_end_simps(1) [OF r] by blast
  have h: "B \<noteq> []" "hd B \<noteq> chr CHR ''-''" using b dd(1) digit_not_minus by auto
  show ?thesis
  proof (cases "ds' = []")
    case True
    have fr: "scan_frac (chr CHR ''e'' # exp_repr e @ r) = ([], chr CHR ''e'' # exp_repr e @ r)"
      by (simp add: scan_frac_none)
    from True ip fr ex have "match_number ((if neg then chr CHR ''-'' # B else B) @ r) =
        Some (Inr (PyFloat (mk_float neg (digits_val [d]) e), r))"
      using match_number_body [OF h, of r "[d]"] b by simp
    then show ?thesis using mk_float_wf [OF wf m] digits_val_Cons_nat_digits [OF ds] True by simp
  next
    case False
    have fr: "scan_frac (chr CHR ''.'' # ds' @ chr CHR ''e'' # exp_repr (int (length ds') + e) @ r) =
               (ds', chr CHR ''e'' # exp_repr (int (length ds') + e) @ r)"
      using scan_frac_digits [OF dd(3) False] by (simp add: starts_digit_def is_digit_def)
    from False ip fr ex have "match_number ((if neg then chr CHR ''-'' # B else B) @ r) =
        Some (Inr (PyFloat (mk_float neg (digits_val (d # ds')) e), r))"
      using match_number_body [OF h, of r "[d]"] b by simp
    then show ?thesis using mk_float_wf [OF wf m] digits_val_Cons_nat_digits [OF ds] by simp
  qed
qed

lemma digits_zeros_append [simp]: "list_all is_digit (replicate k 48)"
  by (simp add: is_digit_def list_all_iff)

lemma digits_val_zeros_prefix: "digits_val (replicate k 48 @ ds) = digits_val ds"
  by (simp add: digits_val_append)

lemma digits_val_zeros_suffix: "digits_val (ds @ replicate k 48) = digits_val ds * 10 ^ k"
  by (simp add: digits_val_append)

lemma match_number_small:
  assumes wf: "wf_float (FloatVal neg m e)" and m: "m \<noteq> 0" and r: "num_end r"
    and e: "e = - (int k + int (length (nat_digits m)))"
    and b: "B = ustr_of ''0.'' @ replicate k (chr CHR ''0'') @ nat_digits m"
  shows "match_number ((if neg then chr CHR ''-'' # B else B) @ r) = Some (Inr (PyFloat (FloatVal neg m e), r))"
proof -
  let ?ds = "nat_digits m"
  let ?fp = "replicate k (chr CHR ''0'') @ ?ds"
  have ip: "scan_int_part ([chr CHR ''0''] @ chr CHR ''.'' # ?fp @ r) = Some ([chr CHR ''0''], chr CHR ''.'' # ?fp @ r)"
    by (rule scan_int_part_canonical) (simp_all add: canonical_def starts_digit_def is_digit_def)
  have fp: "scan_frac (chr CHR ''.'' # ?fp @ r) = (?fp, r)"
  proof -
    have "list_all is_digit ?fp" using nat_digits_digits [of m] by simp
    from scan_frac_digits [OF this _ num_end_simps(1) [OF r]] show ?thesis by simp
  qed
  have h: "B \<noteq> []" "hd B \<noteq> chr CHR ''-''" using b by (simp_all add: ustr_of_def)
  have "B @ r = [chr CHR ''0''] @ chr CHR ''.'' # ?fp @ r" using b by (simp add: ustr_of_def)
  then have "match_number ((if neg then chr CHR ''-'' # B else B) @ r) =
      Some (Inr (PyFloat (mk_float neg (digits_val ([chr CHR ''0''] @ ?fp)) (0 - int (length ?fp))), r))"
    using match_number_body [OF h, of r "[chr CHR ''0'']" "chr CHR ''.'' # ?fp @ r" ?fp r]
      ip fp num_end_simps(3) [OF r] by (simp del: digits_val_zero_Cons)
  moreover have "digits_val ([chr CHR ''0''] @ ?fp) = m"
    by (simp add: digits_val_zeros_prefix)
  moreover have "0 - int (length ?fp) = e" using e by simp
  ultimately show ?thesis using mk_float_wf [OF wf m] by simp
qed

lemma canonical_append_zeros:
  "canonical ds \<Longrightarrow> (ds = [chr CHR ''0''] \<Longrightarrow> k = 0) \<Longrightarrow> canonical (ds @ replicate k 48)"
  by (cases ds) (auto simp: canonical_def is_digit_def)

lemma match_number_large:
  assumes wf: "wf_float (FloatVal neg m e)" and r: "num_end r" and e: "0 \<le> e"
    and b: "B = nat_digits m @ replicate (nat e) (chr CHR ''0'') @ ustr_of ''.0''"
  shows "match_number ((if neg then chr CHR ''-'' # B else B) @ r) = Some (Inr (PyFloat (FloatVal neg m e), r))"
proof -
  let ?ds = "nat_digits m"
  let ?ip = "?ds @ replicate (nat e) 48"
  have z: "m = 0 \<Longrightarrow> e = 0" using wf by simp
  have c: "canonical ?ip"
  proof (rule canonical_append_zeros [OF canonical_nat_digits])
    assume "nat_digits m = [chr CHR ''0'']"
    then have "m = 0" using digits_val_nat_digits [of m] by simp
    then show "nat e = 0" using z by simp
  qed
  have ip: "scan_int_part (?ip @ chr CHR ''.'' # [48] @ r) = Some (?ip, chr CHR ''.'' # [48] @ r)"
    by (rule scan_int_part_canonical [OF c]) (simp add: starts_digit_def is_digit_def)
  have fp: "scan_frac (chr CHR ''.'' # [48] @ r) = ([48], r)"
    by (rule scan_frac_digits) (simp_all add: is_digit_def num_end_simps(1) [OF r])
  have h: "B \<noteq> []" "hd B \<noteq> chr CHR ''-''"
    using b canonical_hd [OF canonical_nat_digits [of m]] digit_not_minus by auto
  have "B @ r = ?ip @ chr CHR ''.'' # [48] @ r" using b by (simp add: ustr_of_def)
  then have "match_number ((if neg then chr CHR ''-'' # B else B) @ r) =
      Some (Inr (PyFloat (mk_float neg (digits_val (?ip @ [48])) (0 - 1)), r))"
    using match_number_body [OF h, of r ?ip "chr CHR ''.'' # [48] @ r" "[48]" r]
      ip fp num_end_simps(3) [OF r] by simp
  moreover have "digits_val (?ip @ [48]) = m * 10 ^ (nat e + 1)"
    using digits_val_zeros_suffix [of ?ds "nat e + 1"] by (simp add: replicate_append_same)
  ultimately show ?thesis
    using mk_float_zero mk_float_scaled [OF wf _ e] z by (cases "m = 0") simp_all
qed

lemma match_number_mid:
  assumes wf: "wf_float (FloatVal neg m e)" and m: "m \<noteq> 0" and r: "num_end r"
    and p: "0 < p" "p < length (nat_digits m)" and e: "e = int p - int (length (nat_digits m))"
    and b: "B = take p (nat_digits m) @ chr CHR ''.'' # drop p (nat_digits m)"
  shows "match_number ((if neg then chr CHR ''-'' # B else B) @ r) = Some (Inr (PyFloat (FloatVal neg m e), r))"
proof -
  let ?ds = "nat_digits m"
  obtain d ds' where ds: "?ds = d # ds'" by (cases ?ds) auto
  note dd = nat_digits_Cons [OF m ds]
  have c: "canonical (take p ?ds)"
    using p dd ds by (cases p) (auto simp: canonical_def list_all_iff dest: in_set_takeD)
  have ip: "scan_int_part (take p ?ds @ chr CHR ''.'' # drop p ?ds @ r) =
              Some (take p ?ds, chr CHR ''.'' # drop p ?ds @ r)"
    by (rule scan_int_part_canonical [OF c]) (simp add: starts_digit_def is_digit_def)
  have fp: "scan_frac (chr CHR ''.'' # drop p ?ds @ r) = (drop p ?ds, r)"
    by (rule scan_frac_digits)
      (use p nat_digits_digits [of m] num_end_simps(1) [OF r] in \<open>auto simp: list_all_iff dest: in_set_dropD\<close>)
  have h: "B \<noteq> []" "hd B \<noteq> chr CHR ''-''"
    using b p ds dd(1) digit_not_minus by (cases p, auto)
  have "match_number ((if neg then chr CHR ''-'' # B else B) @ r) =
      Some (Inr (PyFloat (mk_float neg (digits_val (take p ?ds @ drop p ?ds))
                            (0 - int (length (drop p ?ds)))), r))"
    using match_number_body [OF h, of r "take p ?ds" "chr CHR ''.'' # drop p ?ds @ r" "drop p ?ds" r]
      ip fp num_end_simps(3) [OF r] p b by simp
  then show ?thesis using mk_float_wf [OF wf m] e p by simp
qed

lemma match_number_float:
  assumes wf: "wf_float (FloatVal neg m e)" and r: "num_end r"
  shows "match_number (float_repr neg m e @ r) = Some (Inr (PyFloat (FloatVal neg m e), r))"
proof (cases "m = 0")
  case True
  then have e: "e = 0" using wf by simp
  have "float_repr neg m e =
      (if neg then chr CHR ''-'' # (nat_digits m @ replicate (nat e) (chr CHR ''0'') @ ustr_of ''.0'')
       else nat_digits m @ replicate (nat e) (chr CHR ''0'') @ ustr_of ''.0'')"
    using True e by (simp add: float_repr_def Let_def nat_digits.simps)
  then show ?thesis using match_number_large [OF wf r _ refl] e by simp
next
  case False
  let ?ds = "nat_digits m"
  let ?L = "length ?ds"
  let ?p = "int ?L + e"
  obtain d ds' where ds: "?ds = d # ds'" by (cases ?ds) auto
  consider (sci) "?p \<le> -4 \<or> 16 < ?p" | (small) "\<not> (?p \<le> -4 \<or> 16 < ?p)" "?p \<le> 0"
    | (large) "\<not> (?p \<le> -4 \<or> 16 < ?p)" "0 < ?p" "int ?L \<le> ?p"
    | (mid) "\<not> (?p \<le> -4 \<or> 16 < ?p)" "0 < ?p" "?p < int ?L"
    by linarith
  then show ?thesis
  proof cases
    case sci
    let ?B = "[d] @ (if ds' = [] then [] else chr CHR ''.'' # ds') @ chr CHR ''e'' # exp_repr (int (length ds') + e)"
    have "float_repr neg m e = (if neg then chr CHR ''-'' # ?B else ?B)"
      using False sci ds by (simp add: float_repr_def Let_def)
    then show ?thesis using match_number_sci [OF wf False r ds refl] by simp
  next
    case small
    let ?k = "nat (- ?p)"
    let ?B = "ustr_of ''0.'' @ replicate ?k (chr CHR ''0'') @ ?ds"
    have "float_repr neg m e = (if neg then chr CHR ''-'' # ?B else ?B)"
      using False small by (simp add: float_repr_def Let_def)
    moreover have "e = - (int ?k + int ?L)" using small by simp
    ultimately show ?thesis using match_number_small [OF wf False r _ refl] by simp
  next
    case large
    let ?B = "?ds @ replicate (nat e) (chr CHR ''0'') @ ustr_of ''.0''"
    have "nat ?p - ?L = nat e" using large by simp
    then have "float_repr neg m e = (if neg then chr CHR ''-'' # ?B else ?B)"
      using False large by (simp add: float_repr_def Let_def)
    moreover have "0 \<le> e" using large by simp
    ultimately show ?thesis using match_number_large [OF wf r _ refl] by simp
  next
    case mid
    let ?q = "nat ?p"
    let ?B = "take ?q ?ds @ chr CHR ''.'' # drop ?q ?ds"
    have "float_repr neg m e = (if neg then chr CHR ''-'' # ?B else ?B)"
      using False mid by (simp add: float_repr_def Let_def)
    moreover have "0 < ?q" "?q < ?L" "e = int ?q - int ?L" using mid by simp_all
    ultimately show ?thesis using match_number_mid [OF wf False r _ _ _ refl] by simp
  qed
qed

section \<open>Scalars\<close>

lemma float_repr_digit:
  "\<exists>c t. float_repr neg m e = (if neg then chr CHR ''-'' # c # t else c # t) \<and> is_digit c"
proof -
  obtain d ds' where ds: "nat_digits m = d # ds'" by (cases "nat_digits m") auto
  have "is_digit d" using nat_digits_digits [of m] ds by simp
  then show ?thesis
    using ds by (auto simp: float_repr_def Let_def ustr_of_def is_digit_def take_Cons')
qed

lemma int_repr_digit:
  "\<exists>c t. int_repr i = (if i < 0 then chr CHR ''-'' # c # t else c # t) \<and> is_digit c"
proof -
  obtain d ds' where ds: "nat_digits (nat \<bar>i\<bar>) = d # ds'" by (cases "nat_digits (nat \<bar>i\<bar>)") auto
  have "is_digit d" using nat_digits_digits [of "nat \<bar>i\<bar>"] ds by simp
  then show ?thesis using ds by (auto simp: int_repr_def)
qed

lemma parse_value_number:
  assumes "match_number s = Some res"
    and "(\<exists>c t. s = c # t \<and> is_digit c) \<or> (\<exists>c t. s = chr CHR ''-'' # c # t \<and> is_digit c)"
  shows "parse_value (Suc f) b s = Some res"
  using assms by (auto simp: is_digit_def ustr_of_def)

lemma parse_value_int:
  "length (nat_digits (nat \<bar>i\<bar>)) \<le> max_str_digits \<Longrightarrow> num_end r \<Longrightarrow>
   parse_value (Suc f) b (int_repr i @ r) = Some (Inr (PyInt i, r))"
  using int_repr_digit [of i] by (intro parse_value_number match_number_int) auto

lemma parse_value_float:
  "wf_float (FloatVal neg m e) \<Longrightarrow> num_end r \<Longrightarrow>
   parse_value (Suc f) b (float_repr neg m e @ r) = Some (Inr (PyFloat (FloatVal neg m e), r))"
  using float_repr_digit [of neg m e] by (intro parse_value_number match_number_float) auto

lemma parse_value_str:
  "wf_str s \<Longrightarrow> parse_value (Suc f) b (str_repr s @ r) = Some (Inr (PyStr s, r))"
  using scan_str_escaped [of s "[]" r] by (simp add: str_repr_def)

lemma parse_value_literals:
  "parse_value (Suc f) b (ustr_of ''null'' @ r) = Some (Inr (PyNone, r))"
  "parse_value (Suc f) b (ustr_of ''true'' @ r) = Some (Inr (PyBool True, r))"
  "parse_value (Suc f) b (ustr_of ''false'' @ r) = Some (Inr (PyBool False, r))"
  by (simp_all add: ustr_of_def)

section \<open>The decoder inverts the encoder\<close>

lemma update_new_key: "k \<notin> set (map fst acc) \<Longrightarrow> AList.update k v acc = acc @ [(k, v)]"
  by (induction acc) auto

lemma skip_ws_nonws: "\<not> json_ws c \<Longrightarrow> skip_ws (c # u) = c # u"
  by (simp add: skip_ws_def)

lemma skip_ws_space: "skip_ws (32 # u) = skip_ws u"
  by (simp add: skip_ws_def json_ws_def)

lemma dumps_start:
  "json_dumps v = Some t \<Longrightarrow> json_start t"
  "dumps_items xs = Some t \<Longrightarrow> xs \<noteq> [] \<Longrightarrow> json_start t"
  "dumps_pairs ps = Some t \<Longrightarrow> ps \<noteq> [] \<Longrightarrow> \<exists>u. t = quote_ch # u"
proof (induction v and xs and ps arbitrary: t and t and t rule: json_dumps_dumps_items_dumps_pairs.induct)
  case (3 i)
  then show ?case using int_repr_digit [of i] by (auto simp: json_start_def json_ws_def is_digit_def split: if_splits)
next
  case (4 neg m e)
  then show ?case using float_repr_digit [of neg m e] by (auto simp: json_start_def json_ws_def is_digit_def split: if_splits)
next
  case (8 xs)
  then show ?case by (cases xs) (auto simp: json_start_def json_ws_def ustr_of_def)
next
  case (9 ps)
  then show ?case by (cases ps) (auto simp: json_start_def json_ws_def ustr_of_def)
next
  case (11 x xs)
  then show ?case by (cases xs) (auto simp: json_start_def split: option.splits)
next
  case (13 k v ps)
  then show ?case by (cases ps) (auto simp: str_repr_def Let_def split: option.splits)
qed (auto simp: json_start_def json_ws_def ustr_of_def str_repr_def)

lemma skip_ws_start: "json_start t \<Longrightarrow> skip_ws (t @ r) = t @ r"
  by (cases t) (simp_all add: json_start_def skip_ws_nonws)

lemma num_end_sep:
  "num_end []" "num_end (chr CHR '','' # r)" "num_end (chr CHR '']'' # r)" "num_end (chr CHR ''}'' # r)"
  by (simp_all add: num_end_def starts_digit_def is_digit_def)

lemma fuel_Suc: "length s < f \<Longrightarrow> \<exists>f'. f = Suc f' \<and> length s \<le> f'"
  by (cases f) auto

lemma num_end_punct [simp]: "num_end (44 # r)" "num_end (93 # r)" "num_end (125 # r)"
  by (simp_all add: num_end_def starts_digit_def is_digit_def)

lemma parse_list_Suc:
  "parse_value (Suc f) b s = Some (Inr (v, r)) \<Longrightarrow>
   parse_list (Suc f) b acc s =
     (case list_sep r of
        SepEnd r' \<Rightarrow> Some (Inr (PyList (acc @ [v]), r'))
      | SepMore r' \<Rightarrow> parse_list f b (acc @ [v]) r'
      | SepBad \<Rightarrow> Some (Inl JSONDecodeError))"
  by (simp only: parse_list.simps option.case sum.case prod.case)

lemma parse_dict_Suc:
  "dict_key s = Some (k, r) \<Longrightarrow> parse_value (Suc f) b r = Some (Inr (v, r')) \<Longrightarrow>
   parse_dict (Suc f) b acc s =
     (case dict_sep r' of
        SepEnd r'' \<Rightarrow> Some (Inr (PyDict (AList.update k v acc), r''))
      | SepMore r'' \<Rightarrow> parse_dict f b (AList.update k v acc) r''
      | SepBad \<Rightarrow> Some (Inl JSONDecodeError))"
  by (simp only: parse_dict.simps option.case sum.case prod.case)

lemma list_sep_dumps:
  "json_start u \<Longrightarrow> list_sep (ustr_of '', '' @ u @ r) = SepMore (u @ r)"
  "list_sep (93 # r0) = SepEnd r0"
  by (simp_all add: list_sep_def ustr_of_def skip_ws_nonws skip_ws_space skip_ws_start json_ws_def)

lemma dict_sep_dumps:
  "dict_sep (ustr_of '', '' @ quote_ch # u) = SepMore u"
  "dict_sep (125 # r0) = SepEnd r0"
  by (simp_all add: dict_sep_def ustr_of_def skip_ws_nonws skip_ws_space json_ws_def)

lemma dict_key_dumps:
  assumes "wf_str k" and "json_start t"
  shows "dict_key (concat (map ascii_escape k) @ quote_ch # ustr_of '': '' @ t @ r) = Some (k, t @ r)"
proof -
  have "scan_str [] (concat (map ascii_escape k) @ quote_ch # ustr_of '': '' @ t @ r) =
        Some (k, ustr_of '': '' @ t @ r)"
    using scan_str_escaped [OF assms(1), of "[]"] by simp
  then show ?thesis
    using skip_ws_start [OF assms(2), of r]
    by (simp add: dict_key_def ustr_of_def skip_ws_nonws skip_ws_space json_ws_def)
qed

lemma parse_dumps:
  "json_dumps v = Some t \<Longrightarrow> json_wf b v \<Longrightarrow> num_end r \<Longrightarrow> length (t @ r) < f \<Longrightarrow>
   parse_value f b (t @ r) = Some (Inr (v, r))"
  "dumps_items xs = Some t \<Longrightarrow> xs \<noteq> [] \<Longrightarrow> items_wf b xs \<Longrightarrow> length (t @ r) < f \<Longrightarrow>
   r = chr CHR '']'' # r0 \<Longrightarrow> parse_list f b acc (t @ r) = Some (Inr (PyList (acc @ xs), r0))"
  "dumps_pairs ps = Some t \<Longrightarrow> ps \<noteq> [] \<Longrightarrow> pairs_wf b ps \<Longrightarrow> distinct (map fst pacc @ map fst ps) \<Longrightarrow>
   length (t @ r) < f \<Longrightarrow> r = chr CHR ''}'' # r0 \<Longrightarrow>
   parse_dict f b pacc (tl t @ r) = Some (Inr (PyDict (pacc @ ps), r0))"
proof (induction v and xs and ps arbitrary: t r f b and t r f b acc r0 and t r f b pacc r0
    rule: json_dumps_dumps_items_dumps_pairs.induct)
  case 1
  obtain f' where f: "f = Suc f'" using fuel_Suc [OF "1.prems"(4)] by blast
  from "1.prems"(1) have t: "t = ustr_of ''null''" by simp
  show ?case unfolding f t by (rule parse_value_literals(1))
next
  case (2 x)
  obtain f' where f: "f = Suc f'" using fuel_Suc [OF "2.prems"(4)] by blast
  show ?case
  proof (cases x)
    case True
    with "2.prems"(1) have t: "t = ustr_of ''true''" by simp
    show ?thesis unfolding f t by (simp only: True parse_value_literals(2))
  next
    case False
    with "2.prems"(1) have t: "t = ustr_of ''false''" by simp
    show ?thesis unfolding f t by (simp only: False parse_value_literals(3) simp_thms)
  qed
next
  case (3 i)
  obtain f' where f: "f = Suc f'" using fuel_Suc [OF "3.prems"(4)] by blast
  from "3.prems"(1) have t: "t = int_repr i" by simp
  show ?case unfolding f t by (rule parse_value_int) (use "3.prems" in simp_all)
next
  case (4 neg m e)
  obtain f' where f: "f = Suc f'" using fuel_Suc [OF "4.prems"(4)] by blast
  from "4.prems"(1) have t: "t = float_repr neg m e" by simp
  show ?case unfolding f t by (rule parse_value_float) (use "4.prems" in simp_all)
next
  case (7 s)
  obtain f' where f: "f = Suc f'" using fuel_Suc [OF "7.prems"(4)] by blast
  from "7.prems"(1) have t: "t = str_repr s" by simp
  show ?case unfolding f t by (rule parse_value_str) (use "7.prems" in simp)
next
  case (8 xs)
  obtain f' where f: "f = Suc f'" "length (t @ r) \<le> f'" using fuel_Suc [OF "8.prems"(4)] by blast
  show ?case
  proof (cases "xs = []")
    case True
    with "8.prems"(1) have t: "t = ustr_of ''[]''" by simp
    show ?thesis unfolding f(1) t using "8.prems"(2) True by (simp add: ustr_of_def skip_ws_def json_ws_def)
  next
    case False
    then obtain u where u: "dumps_items xs = Some u" "t = chr CHR ''['' # u @ [chr CHR '']'']"
      using "8.prems"(1) by (cases xs) (auto split: option.splits)
    have st: "json_start u" using dumps_start(2) [OF u(1) False] .
    obtain y ys where c: "xs = y # ys" using False by (cases xs) auto
    have "parse_list f' (b - 1) [] (u @ chr CHR '']'' # r) = Some (Inr (PyList ([] @ xs), r))"
      using "8.IH" [OF c u(1) False _ _ refl] "8.prems"(2) f u(2) by simp
    moreover have "hd u \<noteq> chr CHR '']''" "u \<noteq> []" using st by (simp_all add: json_start_def)
    ultimately show ?thesis
      using "8.prems"(2) f u(2) skip_ws_start [OF st, of "chr CHR '']'' # r"]
      by (cases u) (simp_all add: neq_Nil_conv)
  qed
next
  case (9 ps)
  obtain f' where f: "f = Suc f'" "length (t @ r) \<le> f'" using fuel_Suc [OF "9.prems"(4)] by blast
  show ?case
  proof (cases "ps = []")
    case True
    with "9.prems"(1) have t: "t = ustr_of ''{}''" by simp
    show ?thesis unfolding f(1) t using "9.prems"(2) True by (simp add: ustr_of_def skip_ws_def json_ws_def)
  next
    case False
    then obtain u where u: "dumps_pairs ps = Some u" "t = chr CHR ''{'' # u @ [chr CHR ''}'']"
      using "9.prems"(1) by (cases ps) (auto split: option.splits)
    obtain u' where u': "u = quote_ch # u'" using dumps_start(3) [OF u(1) False] by blast
    obtain y ys where c: "ps = y # ys" using False by (cases ps) auto
    have "parse_dict f' (b - 1) [] (tl u @ chr CHR ''}'' # r) = Some (Inr (PyDict ([] @ ps), r))"
      using "9.IH" [OF c u(1) False _ _ _ refl] "9.prems"(2) f u(2) by simp
    then show ?thesis
      using "9.prems"(2) f u(2) u' by (simp add: skip_ws_def json_ws_def)
  qed
next
  case (11 x xs)
  obtain f' where f: "f = Suc f'" "length (t @ r) \<le> f'" using fuel_Suc [OF "11.prems"(4)] by blast
  obtain tx where tx: "json_dumps x = Some tx" using "11.prems"(1) by (auto split: option.splits)
  have wf: "json_wf b x" "items_wf b xs" using "11.prems"(3) by simp_all
  show ?case
  proof (cases xs)
    case Nil
    with "11.prems"(1) tx have t: "t = tx" by simp
    have pv: "parse_value (Suc f') b (tx @ r) = Some (Inr (x, r))"
      by (rule "11.IH"(1) [OF tx wf(1)]) (use "11.prems"(4,5) f(1) t in simp_all)
    show ?thesis unfolding f(1) t parse_list_Suc [OF pv] unfolding "11.prems"(5) Nil by (simp add: list_sep_dumps)
  next
    case (Cons y ys)
    then obtain u where u: "dumps_items xs = Some u" "t = tx @ ustr_of '', '' @ u"
      using "11.prems"(1) tx by (auto split: option.splits)
    have st: "json_start u" using dumps_start(2) [OF u(1)] Cons by simp
    have pv: "parse_value (Suc f') b (tx @ ustr_of '', '' @ u @ r) = Some (Inr (x, ustr_of '', '' @ u @ r))"
      by (rule "11.IH"(1) [OF tx wf(1)]) (use "11.prems"(4) f(1) u(2) in \<open>simp_all add: ustr_of_def\<close>)
    have pl: "parse_list f' b (acc @ [x]) (u @ r) = Some (Inr (PyList ((acc @ [x]) @ xs), r0))"
      using "11.IH"(2) [OF tx Cons u(1) _ wf(2) _ "11.prems"(5)] f u(2) Cons by simp
    show ?thesis
      unfolding f(1) u(2) append_assoc parse_list_Suc [OF pv] list_sep_dumps(1) [OF st] using pl by simp
  qed
next
  case (13 k v ps)
  obtain f' where f: "f = Suc f'" "length (t @ r) \<le> f'" using fuel_Suc [OF "13.prems"(5)] by blast
  obtain tv where tv: "json_dumps v = Some tv" using "13.prems"(1) by (auto split: option.splits)
  have wf: "wf_str k" "json_wf b v" "pairs_wf b ps" using "13.prems"(3) by simp_all
  have k: "k \<notin> set (map fst pacc)" using "13.prems"(4) by simp
  have stv: "json_start tv" using dumps_start(1) [OF tv] .
  show ?case
  proof (cases ps)
    case Nil
    with "13.prems"(1) tv have t: "t = str_repr k @ ustr_of '': '' @ tv" by simp
    have tl: "tl t @ r = concat (map ascii_escape k) @ quote_ch # ustr_of '': '' @ tv @ r"
      using t by (simp add: str_repr_def)
    have pv: "parse_value (Suc f') b (tv @ r) = Some (Inr (v, r))"
      by (rule "13.IH"(1) [OF tv wf(2)]) (use "13.prems"(5,6) f(1) t in \<open>simp_all add: str_repr_def\<close>)
    show ?thesis
      unfolding f(1) tl parse_dict_Suc [OF dict_key_dumps [OF wf(1) stv] pv] unfolding "13.prems"(6) Nil
      by (simp add: dict_sep_dumps update_new_key [OF k])
  next
    case (Cons y ys)
    then obtain u where u: "dumps_pairs ps = Some u" "t = str_repr k @ ustr_of '': '' @ tv @ ustr_of '', '' @ u"
      using "13.prems"(1) tv by (auto split: option.splits)
    obtain u' where u': "u = quote_ch # u'" using dumps_start(3) [OF u(1)] Cons by blast
    have tl: "tl t @ r = concat (map ascii_escape k) @ quote_ch # ustr_of '': '' @ tv @ ustr_of '', '' @ u @ r"
      using u(2) by (simp add: str_repr_def)
    have pv: "parse_value (Suc f') b (tv @ ustr_of '', '' @ u @ r) = Some (Inr (v, ustr_of '', '' @ u @ r))"
      by (rule "13.IH"(1) [OF tv wf(2)]) (use "13.prems"(5) f(1) u(2) in \<open>simp_all add: ustr_of_def str_repr_def\<close>)
    have pd: "parse_dict f' b (pacc @ [(k, v)]) (tl u @ r) = Some (Inr (PyDict ((pacc @ [(k, v)]) @ ps), r0))"
      using "13.IH"(2) [OF tv refl Cons u(1) _ wf(3) _ _ "13.prems"(6), where pacc = "pacc @ [(k, v)]" and f = f'] "13.prems"(4) f u(2) Cons by simp
    have sep: "dict_sep (ustr_of '', '' @ u @ r) = SepMore (tl u @ r)"
      using dict_sep_dumps(1) [of "u' @ r"] u' by simp
    show ?thesis
      unfolding f(1) tl parse_dict_Suc [OF dict_key_dumps [OF wf(1) stv] pv] sep
      using pd by (simp add: update_new_key [OF k])
  qed
qed simp_all

section \<open>The round trip\<close>

lemma json_loads_dumps:
  assumes "json_dumps v = Some t" "json_wf d v"
  shows "json_loads d t = Inr v"
proof -
  have st: "json_start t" using dumps_start(1) [OF assms(1)] .
  have "is_ascii t" using json_dumps_ascii(1) [OF assms(1)] .
  then have bom: "take 1 t \<noteq> [0xFEFF]" using st by (cases t) (simp_all add: json_start_def)
  have ws: "skip_ws t = t" using skip_ws_start [OF st, of "[]"] by simp
  have "parse_value (Suc (length t)) d (t @ []) = Some (Inr (v, []))"
    by (rule parse_dumps(1) [OF assms]) (simp_all add: num_end_sep(1))
  then show ?thesis using bom ws by (simp add: json_loads_def skip_ws_def)
qed

text \<open>
  C19. Parsing, re-encoding and parsing again gives the same object: when
  \<^verbatim>\<open>json.loads\<close> accepts a text of scalar values and \<^verbatim>\<open>json.dumps\<close> (with the
  forwarder's settings) accepts the result, \<^verbatim>\<open>json.loads\<close> with the same recursion
  budget reads that encoding back as the same object.
\<close>
theorem json_roundtrip:
  assumes "json_loads d s = Inr v" "list_all is_scalar s" "json_dumps v = Some t"
  shows "json_loads d t = Inr v"
proof -
  from json_loads_Inr [OF assms(1)] obtain r
    where "parse_value (Suc (length s)) d (skip_ws s) = Some (Inr (v, r))" ..
  moreover have "list_all is_scalar (skip_ws s)" using list_all_subset [OF assms(2) skip_ws_set] .
  ultimately have "json_wf d v" using parse_wf_fuel by blast
  with assms(3) show ?thesis by (rule json_loads_dumps)
qed

theorem json_roundtrip_witness:
  "json_loads 2 (qtext ''{`id`:[`caf'' @ [0xE9] @ qtext ''`,1.20,null]}'') =
     Inr (PyDict [(ustr_of ''id'', PyList [PyStr (ustr_of ''caf'' @ [0xE9]), PyFloat (FloatVal False 12 (-1)), PyNone])]) \<and>
   json_dumps (PyDict [(ustr_of ''id'', PyList [PyStr (ustr_of ''caf'' @ [0xE9]), PyFloat (FloatVal False 12 (-1)), PyNone])]) =
     Some (qtext ''{`id`: [`caf'' @ u_escape 0xE9 @ qtext ''`, 1.2, null]}'') \<and>
   json_loads 2 (qtext ''{`id`: [`caf'' @ u_escape 0xE9 @ qtext ''`, 1.2, null]}'') =
     Inr (PyDict [(ustr_of ''id'', PyList [PyStr (ustr_of ''caf'' @ [0xE9]), PyFloat (FloatVal False 12 (-1)), PyNone])])"
proof -
  let ?s = "qtext ''{`id`:[`caf'' @ [0xE9] @ qtext ''`,1.20,null]}''"
  let ?v = "PyDict [(ustr_of ''id'', PyList [PyStr (ustr_of ''caf'' @ [0xE9]), PyFloat (FloatVal False 12 (-1)), PyNone])]"
  have sc: "list_all is_scalar ?s" by (simp add: qtext_def is_scalar_def)
  have l: "json_loads 2 ?s = Inr ?v" by (simp add: json_eval)
  have d: "json_dumps ?v = Some (qtext ''{`id`: [`caf'' @ u_escape 0xE9 @ qtext ''`, 1.2, null]}'')"
    by (simp add: dumps_eval qtext_def Let_def)
  show ?thesis using json_roundtrip [OF l sc d] l d by simp
qed

end
