(* ===== verification/Telegraf.thy ===== *)
theory Telegraf
  imports JsonRoundtrip
begin

text \<open>
  The telemetry forwarder, serial_to_telegraf.py. The state is what the script and
  its environment hold across iterations: the serial driver's input buffer, the
  lines printed to the console, the HTTP requests handed to the transport, and the
  seconds slept. One iteration of the \<^verbatim>\<open>while True\<close> loop (lines 13--24) is
  \<open>tg_iteration\<close>; the loop over a sequence of environment events is \<open>tg_run\<close>.
\<close>

section \<open>Constants and state\<close>

definition SERIAL_PORT :: string where
  "SERIAL_PORT = ''/dev/ttyACM0''"

definition BAUD_RATE :: nat where
  "BAUD_RATE = 9600"

definition TELEGRAF_HTTP_URL :: string where
  "TELEGRAF_HTTP_URL = ''http://hostname-or-ip:8125/ro-flow''"

text \<open>\<^verbatim>\<open>serial.Serial(SERIAL_PORT, BAUD_RATE, timeout=2)\<close> (line 11).\<close>
definition tg_serial :: serial_port where
  "tg_serial = \<lparr>port = SERIAL_PORT, baudrate = BAUD_RATE, timeout = Some 2\<rparr>"

text \<open>
  What the network answers to one \<^verbatim>\<open>requests.post\<close>: a response with a status
  code (any code: the script does not call \<^verbatim>\<open>raise_for_status\<close>), or a transport
  failure (connection refused, timeout, ...), raised as a \<^verbatim>\<open>RequestException\<close>.
\<close>
datatype http_result = HttpStatus nat | HttpFail

text \<open>The \<^verbatim>\<open>RequestException\<close>s \<^verbatim>\<open>requests.post\<close> raises.\<close>
datatype request_error =
    InvalidJSONError   \<comment> \<open>\<^verbatim>\<open>json.dumps(data, allow_nan=False)\<close> refused the data; nothing is sent\<close>
  | TransportError     \<comment> \<open>the request was sent and failed\<close>

text \<open>The three \<^verbatim>\<open>print\<close> calls, lines 19, 21 and 23.\<close>
datatype tg_log =
    Sent json nat             \<comment> \<open>\<^verbatim>\<open>Sent: {data}, Telegraf response: {response.status_code}\<close>\<close>
  | Ignored ustr              \<comment> \<open>\<^verbatim>\<open>Ignored invalid JSON: {line}\<close>\<close>
  | HttpError request_error   \<comment> \<open>\<^verbatim>\<open>HTTP error: {e}\<close>\<close>

record tg_state =
  tg_buf :: "byte list"                     \<comment> \<open>bytes received and not yet read\<close>
  tg_console :: "tg_log list"               \<comment> \<open>printed lines, oldest first\<close>
  tg_posts :: "(string \<times> byte list) list"  \<comment> \<open>POST requests sent: URL and body\<close>
  tg_slept :: nat                           \<comment> \<open>seconds spent in \<^verbatim>\<open>time.sleep\<close>\<close>

text \<open>The state right after the port is opened (line 11).\<close>
definition tg_init :: tg_state where
  "tg_init = \<lparr>tg_buf = [], tg_console = [], tg_posts = [], tg_slept = 0\<rparr>"

section \<open>Operations\<close>

text \<open>
  The body \<^verbatim>\<open>requests\<close> builds for \<^verbatim>\<open>json=data\<close> (\<^verbatim>\<open>PreparedRequest.prepare_body\<close>).
  It serialises only when \<^verbatim>\<open>json is not None\<close>: for the reading \<open>null\<close> the
  request has no body (\<^verbatim>\<open>Content-Length: 0\<close>), the empty list here. Otherwise the
  body is \<^verbatim>\<open>json.dumps(data, allow_nan=False)\<close> encoded as UTF-8; \<open>None\<close> when
  \<^verbatim>\<open>dumps\<close> raises \<^verbatim>\<open>ValueError\<close>, which becomes \<^verbatim>\<open>InvalidJSONError\<close>.
\<close>
definition request_body :: "json \<Rightarrow> byte list option" where
  "request_body data =
     (if data = PyNone then Some []
      else (case json_dumps data of None \<Rightarrow> None | Some t \<Rightarrow> utf8_encode t))"

text \<open>
  \<^verbatim>\<open>requests.post(url, json=data)\<close>: the status code, or the
  \<^verbatim>\<open>RequestException\<close> it raises; a request whose body could be built is recorded
  as sent.
\<close>
definition requests_post ::
  "string \<Rightarrow> json \<Rightarrow> http_result \<Rightarrow> tg_state \<Rightarrow> (request_error + nat) \<times> tg_state" where
  "requests_post url data net st =
     (case request_body data of
        None \<Rightarrow> (Inl InvalidJSONError, st)
      | Some body \<Rightarrow>
          let st' = st\<lparr>tg_posts := tg_posts st @ [(url, body)]\<rparr> in
          (case net of HttpStatus code \<Rightarrow> (Inr code, st') | HttpFail \<Rightarrow> (Inl TransportError, st')))"

definition tg_print :: "tg_log \<Rightarrow> tg_state \<Rightarrow> tg_state" where
  "tg_print m st = st\<lparr>tg_console := tg_console st @ [m]\<rparr>"

definition tg_sleep :: "nat \<Rightarrow> tg_state \<Rightarrow> tg_state" where
  "tg_sleep n st = st\<lparr>tg_slept := tg_slept st + n\<rparr>"

text \<open>
  Lines 16--24 for the decoded and stripped \<open>line\<close>: the \<^verbatim>\<open>try\<close> block, its two
  handlers, and the \<^verbatim>\<open>time.sleep(1)\<close> after them. \<^verbatim>\<open>json.loads\<close> errors other
  than \<^verbatim>\<open>JSONDecodeError\<close> are not caught and end the process.
\<close>
definition tg_handle :: "nat \<Rightarrow> http_result \<Rightarrow> ustr \<Rightarrow> tg_state \<Rightarrow> tg_state outcome" where
  "tg_handle depth net line st =
     (case json_loads depth line of
        Inl JSONDecodeError \<Rightarrow> Inr (tg_sleep 1 (tg_print (Ignored line) st))
      | Inl e \<Rightarrow> Inl (e, st)
      | Inr data \<Rightarrow>
          (case requests_post TELEGRAF_HTTP_URL data net st of
             (Inr code, st') \<Rightarrow> Inr (tg_sleep 1 (tg_print (Sent data code) st'))
           | (Inl err, st') \<Rightarrow> Inr (tg_sleep 1 (tg_print (HttpError err) st'))))"

text \<open>
  One iteration of the loop, lines 14--24: nothing when \<^verbatim>\<open>ser.in_waiting\<close> is 0;
  otherwise \<^verbatim>\<open>ser.readline().decode('utf-8').strip()\<close> (line 15, outside the
  \<^verbatim>\<open>try\<close>: a \<^verbatim>\<open>UnicodeDecodeError\<close> ends the process) and the handler.
\<close>
definition tg_iteration :: "nat \<Rightarrow> http_result \<Rightarrow> tg_state \<Rightarrow> tg_state outcome" where
  "tg_iteration depth net st =
     (if in_waiting (tg_buf st) = 0 then Inr st
      else (case ser_readline tg_serial (tg_buf st) of
              None \<Rightarrow> Inr st
            | Some (raw, rest) \<Rightarrow>
                let st1 = st\<lparr>tg_buf := rest\<rparr> in
                (case utf8_decode raw of
                   None \<Rightarrow> Inl (UnicodeDecodeError, st1)
                 | Some txt \<Rightarrow> tg_handle depth net (py_strip txt) st1)))"

text \<open>
  The \<^verbatim>\<open>while True\<close> loop driven by the environment: \<open>Recv bs\<close> appends bytes to
  the driver's buffer, \<open>Iter net\<close> runs one iteration with \<open>net\<close> the network's answer
  to a POST it makes. An uncaught exception ends the run.
\<close>
fun tg_run :: "nat \<Rightarrow> http_result event list \<Rightarrow> tg_state \<Rightarrow> tg_state outcome" where
  "tg_run depth [] st = Inr st"
| "tg_run depth (Recv bs # evs) st = tg_run depth evs (st\<lparr>tg_buf := tg_buf st @ bs\<rparr>)"
| "tg_run depth (Iter net # evs) st =
     (case tg_iteration depth net st of
        Inl x \<Rightarrow> Inl x
      | Inr st' \<Rightarrow> tg_run depth evs st')"

text \<open>
  The script run as a program (lines 26--27 call \<^verbatim>\<open>main()\<close>): the port is opened
  (line 11) and the loop runs on the events the environment supplies.
\<close>
definition tg_main :: "nat \<Rightarrow> http_result event list \<Rightarrow> tg_state outcome" where
  "tg_main depth evs = tg_run depth evs tg_init"

section \<open>The forwarder as a function of its readings\<close>

text \<open>
  What one reading does, as a pure function of the raw bytes the read returned
  (the design the specification asks for in its section 9(b)): the process ends with
  an exception, or the reading yields one console line and at most one POST request.
\<close>
definition forward :: "nat \<Rightarrow> http_result \<Rightarrow> byte list \<Rightarrow> py_exc + tg_log \<times> (string \<times> byte list) list" where
  "forward depth net raw =
     (case utf8_decode raw of
        None \<Rightarrow> Inl UnicodeDecodeError
      | Some txt \<Rightarrow>
          let line = py_strip txt in
          (case json_loads depth line of
             Inl JSONDecodeError \<Rightarrow> Inr (Ignored line, [])
           | Inl e \<Rightarrow> Inl e
           | Inr data \<Rightarrow>
               (case request_body data of
                  None \<Rightarrow> Inr (HttpError InvalidJSONError, [])
                | Some body \<Rightarrow>
                    Inr (case net of HttpStatus code \<Rightarrow> Sent data code | HttpFail \<Rightarrow> HttpError TransportError,
                         [(TELEGRAF_HTTP_URL, body)]))))"

text \<open>The state after a reading has been processed: its line printed, its requests sent,
  one second slept.\<close>
definition tg_record :: "tg_log \<Rightarrow> (string \<times> byte list) list \<Rightarrow> tg_state \<Rightarrow> tg_state" where
  "tg_record m ps st =
     st\<lparr>tg_console := tg_console st @ [m], tg_posts := tg_posts st @ ps, tg_slept := Suc (tg_slept st)\<rparr>"

text \<open>Readings processed one after another, each with the network's answer.\<close>
fun forward_run :: "nat \<Rightarrow> (byte list \<times> http_result) list \<Rightarrow> tg_state \<Rightarrow> tg_state outcome" where
  "forward_run depth [] st = Inr st"
| "forward_run depth ((raw, net) # rs) st =
     (case forward depth net raw of
        Inl e \<Rightarrow> Inl (e, st)
      | Inr (m, ps) \<Rightarrow> forward_run depth rs (tg_record m ps st))"

text \<open>
  The invariant of the loop: one second slept per console line, at most one request
  per console line, every request to \<open>TELEGRAF_HTTP_URL\<close> with an ASCII body.
\<close>
definition tg_inv :: "tg_state \<Rightarrow> bool" where
  "tg_inv st \<longleftrightarrow>
     tg_slept st = length (tg_console st) \<and> length (tg_posts st) \<le> length (tg_console st) \<and>
     list_all (\<lambda>(u, b). u = TELEGRAF_HTTP_URL \<and> list_all (\<lambda>x. unat x < 0x80) b) (tg_posts st)"

section \<open>The forwarder as a transition system\<close>

text \<open>
  The \<^verbatim>\<open>while True\<close> loop as a step relation: in any state the device may send
  bytes, or the loop may run one iteration that does not raise. The states reachable
  from \<open>tg_init\<close> are the states the running script passes through, whatever the
  device sends and whenever it sends it.
\<close>
inductive tg_step :: "nat \<Rightarrow> tg_state \<Rightarrow> tg_state \<Rightarrow> bool" for depth :: nat where
  tg_recv: "tg_step depth st (st\<lparr>tg_buf := tg_buf st @ bs\<rparr>)"
| tg_iter: "tg_iteration depth net st = Inr st' \<Longrightarrow> tg_step depth st st'"


inductive_cases tg_step_cases: "tg_step depth st st'"

section \<open>Properties of one iteration\<close>

text \<open>The body as a function of \<^verbatim>\<open>json.dumps\<close>: empty for \<open>None\<close>, otherwise the
  dumped text's bytes (it is ASCII, so UTF-8 encodes it byte for byte).\<close>
lemma request_body_eq:
  "request_body data = (if data = PyNone then Some [] else map_option (map of_nat) (json_dumps data))"
  by (simp add: request_body_def utf8_encode_ascii json_dumps_ascii(1) split: option.splits)

lemma request_body_dumps:
  "json_dumps data = Some t \<Longrightarrow> data \<noteq> PyNone \<Longrightarrow> request_body data = Some (map of_nat t)"
  by (simp add: request_body_eq)

lemma tg_handle_forward:
  "utf8_decode raw = Some txt \<Longrightarrow>
   tg_handle depth net (py_strip txt) st =
     (case forward depth net raw of Inl e \<Rightarrow> Inl (e, st) | Inr (m, ps) \<Rightarrow> Inr (tg_record m ps st))"
  by (auto simp: tg_handle_def forward_def requests_post_def tg_record_def tg_print_def tg_sleep_def
      split: sum.splits py_exc.splits option.splits http_result.splits)

text \<open>One iteration with bytes waiting reads one reading and processes it.\<close>
lemma tg_iteration_forward:
  assumes "tg_buf st \<noteq> []" "readline_timeout (tg_buf st) = (raw, rest)"
  shows "tg_iteration depth net st =
           (case forward depth net raw of
              Inl e \<Rightarrow> Inl (e, st\<lparr>tg_buf := rest\<rparr>)
            | Inr (m, ps) \<Rightarrow> Inr (tg_record m ps (st\<lparr>tg_buf := rest\<rparr>)))"
proof (cases "utf8_decode raw")
  case None
  with assms show ?thesis
    by (simp add: tg_iteration_def in_waiting_def ser_readline_def tg_serial_def forward_def)
next
  case (Some decoded)
  with assms show ?thesis
    by (simp add: tg_iteration_def in_waiting_def ser_readline_def tg_serial_def tg_handle_forward Let_def)
qed

lemma ascii_bytes: "is_ascii t \<Longrightarrow> list_all (\<lambda>x. unat x < 0x80) (map of_nat t :: byte list)"
  by (induction t) auto

lemma request_body_ascii_bytes: "request_body data = Some b \<Longrightarrow> list_all (\<lambda>x. unat x < 0x80) b"
  by (auto simp: request_body_eq ascii_bytes json_dumps_ascii(1) split: if_splits)

lemma forward_posts:
  "forward depth net raw = Inr (m, ps) \<Longrightarrow>
   length ps \<le> 1 \<and> list_all (\<lambda>(u, b). u = TELEGRAF_HTTP_URL \<and> list_all (\<lambda>x. unat x < 0x80) b) ps"
  by (auto simp: forward_def Let_def request_body_ascii_bytes
      split: option.splits sum.splits py_exc.splits http_result.splits)

lemma tg_iteration_inv:
  assumes "tg_inv st"
  shows "tg_inv (final_state (tg_iteration depth net st))"
proof (cases "tg_buf st = []")
  case True
  with assms show ?thesis by (simp add: tg_iteration_def in_waiting_def)
next
  case False
  obtain raw rest where rl: "readline_timeout (tg_buf st) = (raw, rest)" by fastforce
  show ?thesis
  proof (cases "forward depth net raw")
    case (Inl e)
    with assms False rl show ?thesis by (simp add: tg_iteration_forward tg_inv_def)
  next
    case (Inr r)
    then obtain m ps where r: "forward depth net raw = Inr (m, ps)" by (cases r) auto
    with assms False rl forward_posts [OF r] show ?thesis
      by (simp add: tg_iteration_forward tg_inv_def tg_record_def)
  qed
qed

text \<open>
  C5. Whatever the device sends and however the iterations interleave with it, every
  state the forwarder reaches, also the one an uncaught exception leaves, keeps the
  invariant: one second slept per console line, at most one request per console
  line, and every request sent to \<open>TELEGRAF_HTTP_URL\<close> with an ASCII body.
\<close>
theorem tg_run_keeps_inv: "tg_inv st \<Longrightarrow> tg_inv (final_state (tg_run depth evs st))"
proof (induction depth evs st rule: tg_run.induct)
  case (2 depth bs evs st)
  then show ?case by (simp add: tg_inv_def)
next
  case (3 depth net evs st)
  then show ?case
    using tg_iteration_inv [OF "3.prems", of depth net]
    by (auto split: sum.splits)
qed simp

text \<open>
  C4. For a device that sends whole lines one at a time, each followed by one
  iteration, the forwarder's loop is the abstract per-reading function \<open>forward\<close>
  applied to the lines in arrival order: each reading is processed once, in order,
  before the next is read.
\<close>
theorem tg_run_forward:
  assumes "tg_buf st = []" "list_all (\<lambda>(l, net). newline \<notin> set l) ls"
  shows "tg_run depth (line_events ls) st = forward_run depth (map (\<lambda>(l, net). (l @ [newline], net)) ls) st"
  using assms
proof (induction ls arbitrary: st)
  case Nil
  then show ?case by (simp add: line_events_def)
next
  case (Cons lr ls)
  obtain l net where lr: "lr = (l, net)" by fastforce
  let ?st = "st\<lparr>tg_buf := l @ [newline]\<rparr>"
  have rl: "readline_timeout (tg_buf ?st) = (l @ [newline], [])"
    using Cons.prems lr readline_timeout_line [of l "[]"] by simp
  have st0: "?st\<lparr>tg_buf := []\<rparr> = st"
    using Cons.prems(1) by (cases st) simp
  have it: "tg_iteration depth net ?st =
      (case forward depth net (l @ [newline]) of
         Inl e \<Rightarrow> Inl (e, st) | Inr (m, ps) \<Rightarrow> Inr (tg_record m ps st))"
  proof -
    have "tg_buf ?st \<noteq> []" by simp
    from tg_iteration_forward [OF this rl, of depth net] show ?thesis unfolding st0 .
  qed
  have ih: "tg_run depth (line_events ls) (tg_record m ps st) =
      forward_run depth (map (\<lambda>(l, net). (l @ [newline], net)) ls) (tg_record m ps st)" for m ps
    using Cons.IH [of "tg_record m ps st"] Cons.prems by (simp add: tg_record_def)
  show ?case
    using Cons.prems(1) lr it ih by (simp add: line_events_def split: sum.splits)
qed

text \<open>A complete line in the buffer is read, decoded and stripped as one reading.\<close>
lemma tg_iteration_line:
  assumes "tg_buf st = l @ newline # rest" "newline \<notin> set l" "utf8_decode l = Some txt"
  shows "tg_iteration depth net st =
           (case forward depth net (l @ [newline]) of
              Inl e \<Rightarrow> Inl (e, st\<lparr>tg_buf := rest\<rparr>)
            | Inr (m, ps) \<Rightarrow> Inr (tg_record m ps (st\<lparr>tg_buf := rest\<rparr>)))"
  using assms readline_timeout_line [of l rest] by (simp add: tg_iteration_forward)

lemma forward_line:
  "utf8_decode l = Some txt \<Longrightarrow>
   forward depth net (l @ [newline]) =
     (case json_loads depth (py_strip txt) of
        Inl JSONDecodeError \<Rightarrow> Inr (Ignored (py_strip txt), [])
      | Inl e \<Rightarrow> Inl e
      | Inr data \<Rightarrow>
          (case request_body data of
             None \<Rightarrow> Inr (HttpError InvalidJSONError, [])
           | Some body \<Rightarrow>
               Inr (case net of HttpStatus code \<Rightarrow> Sent data code | HttpFail \<Rightarrow> HttpError TransportError,
                    [(TELEGRAF_HTTP_URL, body)])))"
  by (simp add: forward_def utf8_decode_line py_strip_line Let_def)

lemmas tg_line_simps = tg_iteration_line forward_line tg_record_def request_body_eq

section \<open>Correctness of the forwarder\<close>

text \<open>
  C1. A line that is valid JSON (\<^verbatim>\<open>json.loads\<close> accepts the stripped text) and that
  \<^verbatim>\<open>json.dumps\<close> can write is sent in exactly one POST to \<open>TELEGRAF_HTTP_URL\<close>,
  whose body is the ASCII text of \<^verbatim>\<open>json.dumps(data)\<close>, except for the reading
  \<open>null\<close>, which \<^verbatim>\<open>requests\<close> sends with an empty body; the console shows the data
  with the status code, or the transport error, and the loop sleeps one second.
\<close>
theorem tg_valid_line_posts:
  assumes "tg_buf st = l @ newline # rest" "newline \<notin> set l" "utf8_decode l = Some txt"
    and "json_loads depth (py_strip txt) = Inr data" "json_dumps data = Some body"
  shows "tg_iteration depth net st =
           Inr (st\<lparr>tg_buf := rest,
                   tg_console := tg_console st @
                     [case net of HttpStatus code \<Rightarrow> Sent data code | HttpFail \<Rightarrow> HttpError TransportError],
                   tg_posts := tg_posts st @ [(TELEGRAF_HTTP_URL, if data = PyNone then [] else map of_nat body)],
                   tg_slept := Suc (tg_slept st)\<rparr>)"
  using assms by (simp add: tg_line_simps)

text \<open>
  C2. A line that is not JSON is reported as ignored, with the stripped text, and no
  request is sent; the loop sleeps one second and goes on.
\<close>
theorem tg_invalid_line_ignored:
  assumes "tg_buf st = l @ newline # rest" "newline \<notin> set l" "utf8_decode l = Some txt"
    and "json_loads depth (py_strip txt) = Inl JSONDecodeError"
  shows "tg_iteration depth net st =
           Inr (st\<lparr>tg_buf := rest, tg_console := tg_console st @ [Ignored (py_strip txt)],
                   tg_slept := Suc (tg_slept st)\<rparr>)"
  using assms by (simp add: tg_line_simps)

text \<open>
  C9. A line that \<^verbatim>\<open>json.loads\<close> accepts but \<^verbatim>\<open>json.dumps(..., allow_nan=False)\<close>
  refuses (it holds \<open>NaN\<close>, \<open>Infinity\<close>, or a number too large for a float) is not
  sent: \<^verbatim>\<open>requests\<close> raises \<^verbatim>\<open>InvalidJSONError\<close> and the console shows an HTTP error.
\<close>
theorem tg_nonfinite_not_sent:
  assumes "tg_buf st = l @ newline # rest" "newline \<notin> set l" "utf8_decode l = Some txt"
    and "json_loads depth (py_strip txt) = Inr data" "json_dumps data = None"
  shows "tg_iteration depth net st =
           Inr (st\<lparr>tg_buf := rest, tg_console := tg_console st @ [HttpError InvalidJSONError],
                   tg_slept := Suc (tg_slept st)\<rparr>)"
  using assms by (cases "data = PyNone") (simp_all add: tg_line_simps)

text \<open>
  C8. Only \<^verbatim>\<open>JSONDecodeError\<close> is caught: when \<^verbatim>\<open>json.loads\<close> raises another
  exception (\<^verbatim>\<open>RecursionError\<close> on deep nesting, \<^verbatim>\<open>ValueError\<close> on an integer
  of more than 4300 digits), the forwarder ends.
\<close>
theorem tg_loads_error_fatal:
  assumes "tg_buf st = l @ newline # rest" "newline \<notin> set l" "utf8_decode l = Some txt"
    and "json_loads depth (py_strip txt) = Inl e" "e \<noteq> JSONDecodeError"
  shows "tg_iteration depth net st = Inl (e, st\<lparr>tg_buf := rest\<rparr>)"
  using assms by (cases e) (simp_all add: tg_line_simps)

text \<open>
  C7. A read that times out before the newline has arrived returns the partial line;
  when it ends inside a multi-byte UTF-8 character, decoding fails outside the
  \<^verbatim>\<open>try\<close> block and the forwarder ends.
\<close>
theorem tg_partial_read_crash:
  assumes "tg_buf st \<noteq> []" "newline \<notin> set (tg_buf st)" "utf8_decode (tg_buf st) = None"
  shows "tg_iteration depth net st = Inl (UnicodeDecodeError, st\<lparr>tg_buf := []\<rparr>)"
  using assms readline_timeout_partial [OF assms(2)]
  by (simp add: tg_iteration_forward forward_def)

text \<open>
  C17. The body of every request the forwarder sends is ASCII, and it is the UTF-8
  encoding of the text \<^verbatim>\<open>json.dumps\<close> wrote, except for the reading \<open>null\<close>,
  whose request has an empty body.
\<close>
theorem request_body_ascii:
  assumes "request_body data = Some b"
  shows "list_all (\<lambda>x. unat x < 0x80) b \<and> utf8_decode b = (if data = PyNone then Some [] else json_dumps data)"
proof (cases "data = PyNone")
  case True
  with assms show ?thesis by (simp add: request_body_eq)
next
  case False
  with assms obtain t where t: "json_dumps data = Some t" and b: "b = map of_nat t"
    by (auto simp: request_body_eq)
  have "is_ascii t" using json_dumps_ascii(1) [OF t] .
  with False t b show ?thesis using ascii_bytes utf8_decode_ascii by simp
qed

section \<open>What Telegraf receives\<close>

lemma json_loads_empty: "json_loads depth [] = Inl JSONDecodeError"
  by (simp add: json_loads_def skip_ws_def)

text \<open>A value \<^verbatim>\<open>json.loads\<close> returns for a decoded and stripped line is well formed.\<close>
lemma loads_line_wf:
  assumes "utf8_decode raw = Some t" "json_loads depth (py_strip t) = Inr data"
  shows "json_wf depth data"
proof -
  have sc: "list_all is_scalar (py_strip t)"
    using list_all_subset [OF utf8_decode_scalar [OF assms(1)] py_strip_set] .
  from json_loads_Inr [OF assms(2)] obtain r
    where "parse_value (Suc (length (py_strip t))) depth (skip_ws (py_strip t)) = Some (Inr (data, r))" ..
  then show ?thesis using parse_wf_fuel list_all_subset [OF sc skip_ws_set] by blast
qed

text \<open>
  A request the forwarder sends for a reading carries the body \<^verbatim>\<open>requests\<close> built
  for the object \<^verbatim>\<open>json.loads\<close> read from the line; the line is UTF-8, so that
  object is well formed (theory JsonWf).
\<close>
lemma forward_post_body:
  assumes "forward depth net raw = Inr (m, ps)" "(url, body) \<in> set ps"
  obtains dec data where "utf8_decode raw = Some dec" "json_loads depth (py_strip dec) = Inr data"
    "request_body data = Some body" "json_wf depth data"
proof -
  from assms obtain dec data where d: "utf8_decode raw = Some dec"
    and l: "json_loads depth (py_strip dec) = Inr data" and b: "request_body data = Some body"
    by (auto simp: forward_def Let_def split: option.splits sum.splits py_exc.splits)
  with loads_line_wf [OF d l] show ?thesis using that by blast
qed

text \<open>A body built from a well-formed object other than \<open>None\<close> is \<^verbatim>\<open>json.dumps\<close>'s
  text, which \<^verbatim>\<open>json.loads\<close> reads back as the object.\<close>
lemma request_body_loads:
  assumes "json_wf depth data" "request_body data = Some body" "data \<noteq> PyNone"
  obtains t where "json_dumps data = Some t" "utf8_decode body = Some t" "json_loads depth t = Inr data"
proof -
  from assms(2,3) obtain t where t: "json_dumps data = Some t" and b: "body = map of_nat t"
    by (auto simp: request_body_eq)
  from t assms(1) have "json_loads depth t = Inr data" by (rule json_loads_dumps)
  moreover have "utf8_decode body = Some t"
    using b utf8_decode_ascii json_dumps_ascii(1) [OF t] by simp
  ultimately show ?thesis using that t by blast
qed



text \<open>
  C21. Telegraf reads each request body as the object the forwarder read from the
  line: \<^verbatim>\<open>json.loads\<close> applied to the decoded body gives exactly what it gave on
  the stripped line. The exception is the reading \<open>null\<close>: \<^verbatim>\<open>requests\<close> sends no
  body for \<^verbatim>\<open>json=None\<close>, and \<^verbatim>\<open>json.loads\<close> of the empty text raises
  \<^verbatim>\<open>JSONDecodeError\<close>.
\<close>
theorem tg_body_parses_as_line:
  assumes "forward depth net raw = Inr (m, ps)" "(url, body) \<in> set ps" "utf8_decode raw = Some dec"
  shows "map_option (json_loads depth) (utf8_decode body) =
           Some (if json_loads depth (py_strip dec) = Inr PyNone then Inl JSONDecodeError
                 else json_loads depth (py_strip dec))"
proof -
  obtain dec' data where d: "utf8_decode raw = Some dec'" and l: "json_loads depth (py_strip dec') = Inr data"
    and b: "request_body data = Some body" and w: "json_wf depth data"
    by (rule forward_post_body [OF assms(1,2)])
  have l': "json_loads depth (py_strip dec) = Inr data" using d l assms(3) by simp
  show ?thesis
  proof (cases "data = PyNone")
    case True
    with b have "body = []" by (simp add: request_body_eq)
    with True l' show ?thesis by (simp add: json_loads_empty)
  next
    case False
    obtain t where "utf8_decode body = Some t" "json_loads depth t = Inr data"
      by (rule request_body_loads [OF w b False])
    with False l' show ?thesis by simp
  qed
qed


section \<open>Progress\<close>

lemma tg_iteration_consumes:
  assumes "tg_buf st \<noteq> []" "tg_iteration depth net st = Inr st'"
  shows "length (tg_buf st') < length (tg_buf st)"
proof -
  obtain raw rest where rl: "readline_timeout (tg_buf st) = (raw, rest)" by fastforce
  have "length rest < length (tg_buf st)" by (rule readline_timeout_shorter [OF assms(1) rl])
  with assms rl show ?thesis
    by (auto simp: tg_iteration_forward tg_record_def split: sum.splits prod.splits)
qed

text \<open>
  C23. The forwarder never falls behind the bytes it has received: each iteration with
  bytes waiting consumes at least one of them, so within as many iterations as there
  are buffered bytes the loop has either read all of them or stopped on an uncaught
  exception.
\<close>
theorem tg_drains:
  "length (tg_buf st) \<le> length nets \<Longrightarrow>
   isl (tg_run depth (map Iter nets) st) \<or> tg_buf (final_state (tg_run depth (map Iter nets) st)) = []"
proof (induction nets arbitrary: st)
  case Nil
  then show ?case by simp
next
  case (Cons net nets)
  show ?case
  proof (cases "tg_iteration depth net st")
    case (Inl x)
    then show ?thesis by simp
  next
    case (Inr st')
    have "length (tg_buf st') \<le> length nets"
    proof (cases "tg_buf st = []")
      case True
      with Inr have "st' = st" by (simp add: tg_iteration_def in_waiting_def)
      with True show ?thesis by simp
    next
      case False
      with Cons.prems tg_iteration_consumes [OF False Inr] show ?thesis by simp
    qed
    with Cons.IH Inr show ?thesis by simp
  qed
qed

lemma tg_record_buf: "(tg_record m ps st)\<lparr>tg_buf := b\<rparr> = tg_record m ps (st\<lparr>tg_buf := b\<rparr>)"
  by (simp add: tg_record_def)

text \<open>
  C25. Readings that arrive in a burst are neither dropped nor merged: when the buffer
  holds \<open>n\<close> complete lines, \<open>n\<close> iterations process them one at a time, in arrival
  order, as the per-reading function \<open>forward\<close> does, one second of sleep each; at a
  crash the state is the one \<open>forward_run\<close> gives, apart from the lines still buffered.
\<close>
theorem tg_burst_forward:
  assumes "tg_buf st = concat (map (\<lambda>l. l @ [newline]) ls)" "list_all (\<lambda>l. newline \<notin> set l) ls"
    and "length nets = length ls"
  shows "map_sum (apsnd (\<lambda>s. s\<lparr>tg_buf := []\<rparr>)) id (tg_run depth (map Iter nets) st) =
           forward_run depth (zip (map (\<lambda>l. l @ [newline]) ls) nets) (st\<lparr>tg_buf := []\<rparr>)"
  using assms
proof (induction ls arbitrary: nets st)
  case Nil
  then show ?case by (cases st) simp
next
  case (Cons l ls)
  obtain net nets' where n: "nets = net # nets'" "length nets' = length ls"
    using Cons.prems(3) by (cases nets) auto
  let ?rest = "concat (map (\<lambda>l. l @ [newline]) ls)"
  have rl: "readline_timeout (tg_buf st) = (l @ [newline], ?rest)"
    using Cons.prems(1,2) readline_timeout_line [of l ?rest] by simp
  have it: "tg_iteration depth net st =
      (case forward depth net (l @ [newline]) of
         Inl e \<Rightarrow> Inl (e, st\<lparr>tg_buf := ?rest\<rparr>)
       | Inr (m, ps) \<Rightarrow> Inr (tg_record m ps (st\<lparr>tg_buf := ?rest\<rparr>)))"
    using tg_iteration_forward [OF _ rl] Cons.prems(1) by simp
  show ?case
  proof (cases "forward depth net (l @ [newline])")
    case (Inl e)
    with it n show ?thesis by simp
  next
    case (Inr r)
    then obtain m ps where r: "forward depth net (l @ [newline]) = Inr (m, ps)" by (cases r) auto
    have "map_sum (apsnd (\<lambda>s. s\<lparr>tg_buf := []\<rparr>)) id
        (tg_run depth (map Iter nets') (tg_record m ps (st\<lparr>tg_buf := ?rest\<rparr>))) =
        forward_run depth (zip (map (\<lambda>l. l @ [newline]) ls) nets')
          ((tg_record m ps (st\<lparr>tg_buf := ?rest\<rparr>))\<lparr>tg_buf := []\<rparr>)"
      by (rule Cons.IH) (use Cons.prems(2) n(2) in \<open>simp_all add: tg_record_def\<close>)
    with it n r show ?thesis by (simp add: tg_record_buf id_def)
  qed
qed

section \<open>The loop and the transition system\<close>

lemma tg_run_append:
  "tg_run depth (evs @ evs') st = (case tg_run depth evs st of Inl x \<Rightarrow> Inl x | Inr s \<Rightarrow> tg_run depth evs' s)"
  by (induction depth evs st rule: tg_run.induct) (simp_all split: sum.splits)

lemma tg_run_steps: "tg_run depth evs st = Inr st' \<Longrightarrow> (tg_step depth)\<^sup>*\<^sup>* st st'"
proof (induction depth evs st rule: tg_run.induct)
  case (2 depth bs evs st)
  have "(tg_step depth)\<^sup>*\<^sup>* (st\<lparr>tg_buf := tg_buf st @ bs\<rparr>) st'" using 2 by simp
  with tg_recv show ?case by (rule converse_rtranclp_into_rtranclp)
next
  case (3 depth net evs st)
  then obtain s where s: "tg_iteration depth net st = Inr s" and r: "tg_run depth evs s = Inr st'"
    by (auto split: sum.splits)
  have "(tg_step depth)\<^sup>*\<^sup>* s st'" by (rule "3.IH" [OF s r])
  with tg_iter [OF s] show ?case by (rule converse_rtranclp_into_rtranclp)
qed simp

lemma tg_steps_run: "(tg_step depth)\<^sup>*\<^sup>* st st' \<Longrightarrow> \<exists>evs. tg_run depth evs st = Inr st'"
proof (induction rule: rtranclp_induct)
  case base
  have "tg_run depth [] st = Inr st" by simp
  then show ?case ..
next
  case (step s1 s2)
  then obtain evs where r: "tg_run depth evs st = Inr s1" by blast
  from step.hyps(2) show ?case
  proof (cases rule: tg_step.cases)
    case (tg_recv bs)
    with r have "tg_run depth (evs @ [Recv bs]) st = Inr s2" by (simp add: tg_run_append)
    then show ?thesis ..
  next
    case (tg_iter net)
    with r have "tg_run depth (evs @ [Iter net]) st = Inr s2" by (simp add: tg_run_append)
    then show ?thesis ..
  qed
qed

text \<open>
  The transition system describes exactly the program's runs: a state is
  reachable from the opened port by device sends and non-raising iterations if and
  only if some sequence of environment events makes the program (lines 26--27 and
  \<^verbatim>\<open>main\<close>) arrive in it without an exception.
\<close>
theorem tg_reachable_iff_main:
  "(tg_step depth)\<^sup>*\<^sup>* tg_init st \<longleftrightarrow> (\<exists>evs. tg_main depth evs = Inr st)"
  unfolding tg_main_def using tg_run_steps tg_steps_run by blast

section \<open>Examples\<close>

text \<open>The specification's scenario: the line \<open>{"flow":1.2,"total":5.0}\<close> is posted once;
  the body is \<open>json.dumps\<close>'s text, with a space after each separator.\<close>
theorem tg_valid_line_posts_witness:
  "tg_iteration 100 (HttpStatus 204)
     (tg_init\<lparr>tg_buf := map of_nat (qtext ''{`flow`:1.2,`total`:5.0}'') @ [newline]\<rparr>) =
   Inr (tg_init\<lparr>tg_console := [Sent (PyDict [(ustr_of ''flow'', PyFloat (FloatVal False 12 (-1))),
                                             (ustr_of ''total'', PyFloat (FloatVal False 5 0))]) 204],
                tg_posts := [(TELEGRAF_HTTP_URL, map of_nat (qtext ''{`flow`: 1.2, `total`: 5.0}''))],
                tg_slept := 1\<rparr>)"
proof -
  let ?t = "qtext ''{`flow`:1.2,`total`:5.0}''"
  have a: "is_ascii ?t" "10 \<notin> set ?t" by (simp_all add: qtext_def)
  have l: "json_loads 100 (py_strip ?t) =
      Inr (PyDict [(ustr_of ''flow'', PyFloat (FloatVal False 12 (-1))),
                   (ustr_of ''total'', PyFloat (FloatVal False 5 0))])"
    by (simp add: json_eval py_strip_def is_py_space_def)
  have d: "json_dumps (PyDict [(ustr_of ''flow'', PyFloat (FloatVal False 12 (-1))),
                               (ustr_of ''total'', PyFloat (FloatVal False 5 0))]) =
      Some (qtext ''{`flow`: 1.2, `total`: 5.0}'')"
    by (simp add: dumps_eval qtext_def Let_def)
  show ?thesis
    using tg_valid_line_posts [OF _ newline_notin_ascii [OF a] utf8_decode_ascii [OF a(1)] l d,
        of "tg_init\<lparr>tg_buf := map of_nat ?t @ [newline]\<rparr>" "[]" "HttpStatus 204"]
    by (simp add: tg_init_def)
qed

text \<open>The specification's scenario: the line \<open>not-json\<close> is ignored and nothing is sent.\<close>
theorem tg_invalid_line_ignored_witness:
  "tg_iteration 100 HttpFail (tg_init\<lparr>tg_buf := bytes_of ''not-json'' @ [newline]\<rparr>) =
   Inr (tg_init\<lparr>tg_console := [Ignored (ustr_of ''not-json'')], tg_slept := 1\<rparr>)"
proof -
  let ?t = "ustr_of ''not-json''"
  have b: "bytes_of ''not-json'' = map of_nat ?t" by (simp add: bytes_of_def ustr_of_def)
  have a: "is_ascii ?t" "10 \<notin> set ?t" by (simp_all add: ustr_of_def)
  have s: "py_strip ?t = ?t" by (simp add: py_strip_def is_py_space_def ustr_of_def)
  have l: "json_loads 100 (py_strip ?t) = Inl JSONDecodeError"
    unfolding s by (simp add: json_eval)
  show ?thesis
    using tg_invalid_line_ignored [OF _ newline_notin_ascii [OF a] utf8_decode_ascii [OF a(1)] l,
        of "tg_init\<lparr>tg_buf := map of_nat ?t @ [newline]\<rparr>" "[]" HttpFail]
    by (simp add: tg_init_def b s)
qed

text \<open>A reading \<open>{"flow":1e400}\<close>: the decoder gives \<open>inf\<close>, which the request
  refuses to encode.\<close>
theorem tg_nonfinite_not_sent_witness:
  "tg_iteration 100 (HttpStatus 204) (tg_init\<lparr>tg_buf := map of_nat (qtext ''{`flow`:1e400}'') @ [newline]\<rparr>) =
   Inr (tg_init\<lparr>tg_console := [HttpError InvalidJSONError], tg_slept := 1\<rparr>)"
proof -
  let ?t = "qtext ''{`flow`:1e400}''"
  have a: "is_ascii ?t" "10 \<notin> set ?t" by (simp_all add: qtext_def)
  have l: "json_loads 100 (py_strip ?t) = Inr (PyDict [(ustr_of ''flow'', PyFloat (FloatInf False))])"
    by (simp add: json_eval py_strip_def is_py_space_def)
  have d: "json_dumps (PyDict [(ustr_of ''flow'', PyFloat (FloatInf False))]) = None" by simp
  show ?thesis
    using tg_nonfinite_not_sent [OF _ newline_notin_ascii [OF a] utf8_decode_ascii [OF a(1)] l d,
        of "tg_init\<lparr>tg_buf := map of_nat ?t @ [newline]\<rparr>" "[]" "HttpStatus 204"]
    by (simp add: tg_init_def)
qed

text \<open>With one container of recursion budget left, \<open>[[1]]\<close> ends the forwarder.\<close>
theorem tg_loads_error_fatal_witness:
  "tg_iteration 1 HttpFail (tg_init\<lparr>tg_buf := bytes_of ''[[1]]'' @ [newline]\<rparr>) =
   Inl (RecursionError, tg_init)"
proof -
  let ?t = "ustr_of ''[[1]]''"
  have b: "bytes_of ''[[1]]'' = map of_nat ?t" by (simp add: bytes_of_def ustr_of_def)
  have a: "is_ascii ?t" "10 \<notin> set ?t" by (simp_all add: ustr_of_def)
  have l: "json_loads 1 (py_strip ?t) = Inl RecursionError"
    by (simp add: json_eval py_strip_def is_py_space_def)
  show ?thesis
    using tg_loads_error_fatal [OF _ newline_notin_ascii [OF a] utf8_decode_ascii [OF a(1)] l,
        of "tg_init\<lparr>tg_buf := map of_nat ?t @ [newline]\<rparr>" "[]" HttpFail]
    by (simp add: tg_init_def b)
qed

text \<open>The line holding U+00E9 (bytes C3 A9 0A) is read as two readings when the read times out
  after its first byte: the forwarder ends, where the whole line would have been
  processed.\<close>
theorem tg_partial_read_crash_witness:
  "tg_run 100 [Recv [0xC3], Iter HttpFail, Recv [0xA9, 10], Iter HttpFail] tg_init =
   Inl (UnicodeDecodeError, tg_init)"
proof -
  have "tg_iteration 100 HttpFail (tg_init\<lparr>tg_buf := [0xC3]\<rparr>) =
          Inl (UnicodeDecodeError, tg_init\<lparr>tg_buf := [0xC3], tg_buf := []\<rparr>)"
    by (rule tg_partial_read_crash) (simp_all add: tg_init_def newline_def utf8_lead_def)
  then show ?thesis by (simp add: tg_init_def)
qed

theorem tg_run_forward_witness:
  "tg_run 100 (line_events [(bytes_of ''1'', HttpStatus 204), (bytes_of ''x'', HttpFail)]) tg_init =
   forward_run 100 [(bytes_of ''1'' @ [newline], HttpStatus 204), (bytes_of ''x'' @ [newline], HttpFail)] tg_init"
  using tg_run_forward [of tg_init "[(bytes_of ''1'', HttpStatus 204), (bytes_of ''x'', HttpFail)]" 100]
  by (simp add: tg_init_def bytes_of_def newline_def)

theorem tg_run_keeps_inv_witness:
  "tg_inv (final_state (tg_run 100 [Recv (bytes_of ''1''), Iter HttpFail, Recv [10], Iter (HttpStatus 204)] tg_init))"
  by (rule tg_run_keeps_inv) (simp add: tg_inv_def tg_init_def)

theorem request_body_ascii_witness:
  "utf8_decode (the (request_body (PyList [PyInt (-7), PyStr [0xE9]]))) = Some ((qtext ''[-7, `'' @ backslash_ch # qtext ''u00e9`]''))"
proof -
  have d: "json_dumps (PyList [PyInt (-7), PyStr [0xE9]]) = Some ((qtext ''[-7, `'' @ backslash_ch # qtext ''u00e9`]''))"
    by (simp add: dumps_eval qtext_def)
  have "request_body (PyList [PyInt (-7), PyStr [0xE9]]) = Some (map of_nat ((qtext ''[-7, `'' @ backslash_ch # qtext ''u00e9`]'')))"
    using request_body_dumps [OF d] by simp
  from request_body_ascii [OF this] d this show ?thesis by simp
qed

text \<open>The reading \<open>null\<close>: it is posted with an empty body, which Telegraf cannot parse.\<close>
theorem tg_body_parses_as_line_witness:
  "forward 100 (HttpStatus 204) (bytes_of ''null'' @ [newline]) =
     Inr (Sent PyNone 204, [(TELEGRAF_HTTP_URL, [])]) \<and>
   [] \<in> set [[]] \<and>
   utf8_decode (bytes_of ''null'' @ [newline]) = Some (ustr_of ''null'' @ [10]) \<and>
   map_option (json_loads 100) (utf8_decode []) =
     Some (if json_loads 100 (py_strip (ustr_of ''null'' @ [10])) = Inr PyNone then Inl JSONDecodeError
           else json_loads 100 (py_strip (ustr_of ''null'' @ [10])))"
proof -
  let ?t = "ustr_of ''null''"
  have a: "is_ascii ?t" by (simp add: ustr_of_def)
  have b: "bytes_of ''null'' = map of_nat ?t" by (simp add: bytes_of_def ustr_of_def)
  have l: "json_loads 100 (py_strip ?t) = Inr PyNone"
    by (simp add: json_eval py_strip_def is_py_space_def ustr_of_def)
  have f: "forward 100 (HttpStatus 204) (bytes_of ''null'' @ [newline]) =
      Inr (Sent PyNone 204, [(TELEGRAF_HTTP_URL, [])])"
    unfolding b forward_line [OF utf8_decode_ascii [OF a]] l by (simp add: request_body_eq)
  have u: "utf8_decode (bytes_of ''null'' @ [newline]) = Some (?t @ [10])"
    unfolding b using utf8_decode_line [OF utf8_decode_ascii [OF a]] .
  have "(TELEGRAF_HTTP_URL, []) \<in> set [(TELEGRAF_HTTP_URL, [] :: byte list)]" by simp
  from tg_body_parses_as_line [OF f this u] f u show ?thesis by simp
qed


theorem tg_drains_witness:
  "length (tg_buf (tg_init\<lparr>tg_buf := bytes_of ''7''\<rparr>)) \<le> length [HttpFail, HttpFail] \<and>
   (isl (tg_run 100 (map Iter [HttpFail, HttpFail]) (tg_init\<lparr>tg_buf := bytes_of ''7''\<rparr>)) \<or>
    tg_buf (final_state (tg_run 100 (map Iter [HttpFail, HttpFail]) (tg_init\<lparr>tg_buf := bytes_of ''7''\<rparr>))) = [])"
  using tg_drains [of "tg_init\<lparr>tg_buf := bytes_of ''7''\<rparr>" "[HttpFail, HttpFail]" 100]
  by (simp add: bytes_of_def)

text \<open>Two readings in one burst: two iterations post both, in order.\<close>
theorem tg_burst_forward_witness:
  "tg_buf (tg_init\<lparr>tg_buf := bytes_of ''1'' @ [newline] @ bytes_of ''2'' @ [newline]\<rparr>) =
     concat (map (\<lambda>l. l @ [newline]) [bytes_of ''1'', bytes_of ''2'']) \<and>
   list_all (\<lambda>l. newline \<notin> set l) [bytes_of ''1'', bytes_of ''2''] \<and>
   length [HttpStatus 204, HttpFail] = length [bytes_of ''1'', bytes_of ''2''] \<and>
   map_sum (apsnd (\<lambda>s. s\<lparr>tg_buf := []\<rparr>)) id
     (tg_run 100 (map Iter [HttpStatus 204, HttpFail])
        (tg_init\<lparr>tg_buf := bytes_of ''1'' @ [newline] @ bytes_of ''2'' @ [newline]\<rparr>)) =
   forward_run 100 (zip (map (\<lambda>l. l @ [newline]) [bytes_of ''1'', bytes_of ''2'']) [HttpStatus 204, HttpFail])
     tg_init"
proof -
  let ?st = "tg_init\<lparr>tg_buf := bytes_of ''1'' @ [newline] @ bytes_of ''2'' @ [newline]\<rparr>"
  have b: "tg_buf ?st = concat (map (\<lambda>l. l @ [newline]) [bytes_of ''1'', bytes_of ''2''])" by simp
  have n: "list_all (\<lambda>l. newline \<notin> set l) [bytes_of ''1'', bytes_of ''2'']"
    by (simp add: bytes_of_def newline_def)
  have l: "length [HttpStatus 204, HttpFail] = length [bytes_of ''1'', bytes_of ''2'']" by simp
  have i: "?st\<lparr>tg_buf := []\<rparr> = tg_init" by (simp add: tg_init_def)
  show ?thesis using tg_burst_forward [OF b n l, of 100] b n l unfolding i by blast
qed

end
