(* ===== verification/FileLogger.thy ===== *)
theory FileLogger
  imports Serial
begin

text \<open>
  The file logger, unoflow.py. The script opens the port without a timeout (line 6),
  sleeps two seconds (line 7), truncates \<^verbatim>\<open>water_usage_log.csv\<close> and writes the
  CSV header (lines 10--11), then loops (lines 13--19): when bytes are waiting it
  reads a line, decodes and strips it, prints it, writes it with a newline and
  flushes. The file object is a buffered text stream: \<open>fl_pending\<close> is the text
  written and not yet flushed, \<open>fl_disk\<close> the text in the file on disk. An exception
  leaves the \<^verbatim>\<open>with\<close> block, which closes the file and so flushes it.
\<close>

section \<open>Constants and state\<close>

definition comport :: string where
  "comport = ''/dev/cu.usbmodem1401''"

text \<open>\<^verbatim>\<open>serial.Serial(comport, 9600)\<close> (line 6): no timeout.\<close>
definition fl_serial :: serial_port where
  "fl_serial = \<lparr>port = comport, baudrate = 9600, timeout = None\<rparr>"

definition log_path :: string where
  "log_path = ''water_usage_log.csv''"

text \<open>The header written on line 11, with its newline.\<close>
definition csv_header :: ustr where
  "csv_header = ustr_of ''Time (hours),Flow Rate (L/min),Total Volume (Liters)'' @ [10]"

record fl_state =
  fl_buf :: "byte list"    \<comment> \<open>bytes received and not yet read\<close>
  fl_console :: "ustr list" \<comment> \<open>printed lines, oldest first\<close>
  fl_disk :: ustr          \<comment> \<open>contents of \<^verbatim>\<open>water_usage_log.csv\<close> on disk\<close>
  fl_pending :: ustr       \<comment> \<open>text in the file object's buffer\<close>
  fl_slept :: nat          \<comment> \<open>seconds spent in \<^verbatim>\<open>time.sleep\<close>\<close>

section \<open>Operations\<close>

definition fl_write :: "ustr \<Rightarrow> fl_state \<Rightarrow> fl_state" where
  "fl_write s st = st\<lparr>fl_pending := fl_pending st @ s\<rparr>"

definition fl_flush :: "fl_state \<Rightarrow> fl_state" where
  "fl_flush st = st\<lparr>fl_disk := fl_disk st @ fl_pending st, fl_pending := []\<rparr>"

definition fl_print :: "ustr \<Rightarrow> fl_state \<Rightarrow> fl_state" where
  "fl_print s st = st\<lparr>fl_console := fl_console st @ [s]\<rparr>"

text \<open>
  Lines 6--11, from the file's previous contents \<open>old\<close>: open the port, sleep two
  seconds, open the file for writing (which truncates it) and write the header.
\<close>
definition fl_start :: "ustr \<Rightarrow> fl_state" where
  "fl_start old =
     fl_write csv_header
       ((\<lparr>fl_buf = [], fl_console = [], fl_disk = old, fl_pending = [], fl_slept = 2\<rparr>)
          \<lparr>fl_disk := []\<rparr>)"

text \<open>
  One iteration of the loop, lines 14--19. A read that is still blocked waiting for
  its newline leaves the state as it is; a \<^verbatim>\<open>UnicodeDecodeError\<close> on line 16 ends
  the process after the \<^verbatim>\<open>with\<close> block has flushed the file.
\<close>
definition fl_iteration :: "fl_state \<Rightarrow> fl_state outcome" where
  "fl_iteration st =
     (if \<not> 0 < in_waiting (fl_buf st) then Inr st
      else (case ser_readline fl_serial (fl_buf st) of
              None \<Rightarrow> Inr st
            | Some (raw, rest) \<Rightarrow>
                let st1 = st\<lparr>fl_buf := rest\<rparr> in
                (case utf8_decode raw of
                   None \<Rightarrow> Inl (UnicodeDecodeError, fl_flush st1)
                 | Some txt \<Rightarrow>
                     let line = py_strip txt in
                     Inr (fl_flush (fl_write (line @ [10]) (fl_print line st1))))))"

text \<open>The loop driven by the device's bytes and the scheduler's iterations.\<close>
fun fl_run :: "unit event list \<Rightarrow> fl_state \<Rightarrow> fl_state outcome" where
  "fl_run [] st = Inr st"
| "fl_run (Recv bs # evs) st = fl_run evs (st\<lparr>fl_buf := fl_buf st @ bs\<rparr>)"
| "fl_run (Iter () # evs) st =
     (case fl_iteration st of
        Inl x \<Rightarrow> Inl x
      | Inr st' \<Rightarrow> fl_run evs st')"

text \<open>Lines 17--19 for a sequence of stripped lines: print, write with a newline, flush.\<close>
definition fl_log_lines :: "ustr list \<Rightarrow> fl_state \<Rightarrow> fl_state" where
  "fl_log_lines ls st = foldl (\<lambda>st l. fl_flush (fl_write (l @ [10]) (fl_print l st))) st ls"

text \<open>
  The invariant: the file's text, flushed and pending, is the header followed by the
  printed lines, each with a newline; and the buffer holds nothing once a line has
  been written.
\<close>
definition fl_inv :: "fl_state \<Rightarrow> bool" where
  "fl_inv st \<longleftrightarrow>
     fl_disk st @ fl_pending st = csv_header @ concat (map (\<lambda>l. l @ [10]) (fl_console st)) \<and>
     (fl_console st = [] \<or> fl_pending st = [])"

section \<open>Properties\<close>

lemma fl_iteration_line:
  assumes "fl_buf st = l @ newline # rest" "newline \<notin> set l" "utf8_decode l = Some t"
  shows "fl_iteration st = Inr (fl_log_lines [py_strip t] (st\<lparr>fl_buf := rest\<rparr>))"
proof -
  have "utf8_decode (l @ [newline]) = Some (t @ [10])"
    using utf8_decode_line [OF assms(3)] .
  then show ?thesis
    using assms
    by (simp add: fl_iteration_def in_waiting_def ser_readline_def fl_serial_def
        readline_blocking_line fl_log_lines_def py_strip_line Let_def)
qed

lemma fl_log_lines_append:
  "fl_log_lines (ls @ ls') st = fl_log_lines ls' (fl_log_lines ls st)"
  by (simp add: fl_log_lines_def)

lemma fl_log_lines_Cons: "fl_log_lines (l # ls) st = fl_log_lines ls (fl_log_lines [l] st)"
  by (simp add: fl_log_lines_def)

lemma fl_log_lines_state:
  "ls \<noteq> [] \<Longrightarrow>
   fl_log_lines ls st =
     st\<lparr>fl_console := fl_console st @ ls,
        fl_disk := fl_disk st @ fl_pending st @ concat (map (\<lambda>l. l @ [10]) ls),
        fl_pending := []\<rparr>"
proof (induction ls arbitrary: st rule: rev_induct)
  case Nil
  then show ?case by simp
next
  case (snoc l ls)
  then show ?case
    by (cases "ls = []")
      (simp_all add: fl_log_lines_append, simp_all add: fl_log_lines_def fl_flush_def fl_write_def fl_print_def)
qed

lemma fl_run_lines:
  assumes "fl_buf st = []" "list_all2 (\<lambda>l t. newline \<notin> set l \<and> utf8_decode l = Some t) ls ts"
  shows "fl_run (line_events (map (\<lambda>l. (l, ())) ls)) st = Inr (fl_log_lines (map py_strip ts) st)"
  using assms
proof (induction ls arbitrary: ts st)
  case Nil
  then show ?case by (simp add: line_events_def fl_log_lines_def)
next
  case (Cons l ls)
  obtain t ts' where ts: "ts = t # ts'" "newline \<notin> set l" "utf8_decode l = Some t"
    "list_all2 (\<lambda>l t. newline \<notin> set l \<and> utf8_decode l = Some t) ls ts'"
    using Cons.prems(2) by (cases ts) auto
  let ?st = "st\<lparr>fl_buf := l @ [newline]\<rparr>"
  have st0: "?st\<lparr>fl_buf := []\<rparr> = st"
    using Cons.prems(1) by (cases st) simp
  have it: "fl_iteration ?st = Inr (fl_log_lines [py_strip t] st)"
    using fl_iteration_line [of ?st l "[]" t] ts(2,3) unfolding st0 by simp
  have b: "fl_buf (fl_log_lines [py_strip t] st) = []"
    using Cons.prems(1) by (simp add: fl_log_lines_def fl_flush_def fl_write_def fl_print_def)
  have "fl_run (line_events (map (\<lambda>l. (l, ())) (l # ls))) st =
      fl_run (line_events (map (\<lambda>l. (l, ())) ls)) (fl_log_lines [py_strip t] st)"
    using it Cons.prems(1) by (simp add: line_events_def)
  also have "\<dots> = Inr (fl_log_lines (map py_strip ts') (fl_log_lines [py_strip t] st))"
    by (rule Cons.IH [OF b ts(4)])
  also have "\<dots> = Inr (fl_log_lines (map py_strip ts) st)"
    using ts(1) by (simp only: list.map fl_log_lines_Cons [of "py_strip t" "map py_strip ts'" st])
  finally show ?case .
qed

lemma fl_inv_log_lines: "fl_inv st \<Longrightarrow> fl_inv (fl_log_lines [l] st)"
  by (simp add: fl_inv_def fl_log_lines_def fl_flush_def fl_write_def fl_print_def)

lemma fl_inv_buf: "fl_inv (st\<lparr>fl_buf := b\<rparr>) = fl_inv st"
  by (simp add: fl_inv_def)

lemma fl_inv_flush: "fl_inv st \<Longrightarrow> fl_inv (fl_flush st)"
  by (simp add: fl_inv_def fl_flush_def)

lemma fl_iteration_cases:
  "fl_iteration st = Inr st \<or>
   (\<exists>raw rest. fl_iteration st = Inl (UnicodeDecodeError, fl_flush (st\<lparr>fl_buf := rest\<rparr>))) \<or>
   (\<exists>rest l. fl_iteration st = Inr (fl_log_lines [l] (st\<lparr>fl_buf := rest\<rparr>)))"
  by (auto simp: fl_iteration_def fl_log_lines_def Let_def split: option.splits)

lemma fl_iteration_inv: "fl_inv st \<Longrightarrow> fl_inv (final_state (fl_iteration st))"
  using fl_iteration_cases [of st]
  by (auto simp: fl_inv_buf fl_inv_log_lines fl_inv_flush)

lemma fl_start_inv: "fl_inv (fl_start old)"
  by (simp add: fl_inv_def fl_start_def fl_write_def)

lemma fl_log_lines_buf: "(fl_log_lines ls st)\<lparr>fl_buf := b\<rparr> = fl_log_lines ls (st\<lparr>fl_buf := b\<rparr>)"
  by (cases "ls = []") (simp_all add: fl_log_lines_state, simp add: fl_log_lines_def)

lemma py_strip_id: "py_strip t = t \<longleftrightarrow> stripped t"
  using py_strip_stripped [of t] py_strip_append [of "[]" "[]" t] by auto

section \<open>Correctness of the logger\<close>

text \<open>
  C3. The specification's file contract: started on any previous file contents, after
  a device has sent \<open>N \<ge> 1\<close> lines one at a time, the process is still running with an
  empty input buffer, has printed the stripped lines, and the file on disk holds
  exactly the CSV header followed by the stripped lines, each with a newline, in
  arrival order; nothing is left unflushed.
\<close>
theorem fl_log_file:
  assumes "ls \<noteq> []" "list_all2 (\<lambda>l t. newline \<notin> set l \<and> utf8_decode l = Some t) ls ts"
  shows "fl_run (line_events (map (\<lambda>l. (l, ())) ls)) (fl_start old) =
           Inr \<lparr>fl_buf = [], fl_console = map py_strip ts,
                fl_disk = csv_header @ concat (map (\<lambda>t. py_strip t @ [10]) ts),
                fl_pending = [], fl_slept = 2\<rparr>"
proof -
  have "fl_buf (fl_start old) = []" by (simp add: fl_start_def fl_write_def)
  moreover have "map py_strip ts \<noteq> []" using assms by (cases ts) auto
  ultimately show ?thesis using fl_run_lines [OF _ assms(2)]
    by (simp add: fl_log_lines_state fl_start_def fl_write_def comp_def)
qed

text \<open>The specification's scenario: lines \<open>1,2.5,10\<close> and \<open>2,3.0,13\<close> give a file of
  three lines, the header and the two readings.\<close>
theorem fl_log_file_witness:
  "fl_run (line_events [(bytes_of ''1,2.5,10'', ()), (bytes_of ''2,3.0,13'', ())]) (fl_start []) =
     Inr \<lparr>fl_buf = [], fl_console = [ustr_of ''1,2.5,10'', ustr_of ''2,3.0,13''],
          fl_disk = ustr_of ''Time (hours),Flow Rate (L/min),Total Volume (Liters)'' @ [10] @
                    ustr_of ''1,2.5,10'' @ [10] @ ustr_of ''2,3.0,13'' @ [10],
          fl_pending = [], fl_slept = 2\<rparr>"
proof -
  have b: "bytes_of s = map of_nat (ustr_of s)" for s by (simp add: bytes_of_def ustr_of_def)
  show ?thesis
    using fl_log_file [of "[bytes_of ''1,2.5,10'', bytes_of ''2,3.0,13'']"
        "[ustr_of ''1,2.5,10'', ustr_of ''2,3.0,13'']" "[]"]
    by (simp add: b utf8_decode_ascii newline_notin_ascii csv_header_def)
      (simp add: ustr_of_def py_strip_def is_py_space_def newline_def)
qed

text \<open>
  C6. Whatever the device sends and however iterations interleave with it, every state
  the logger reaches, also the one an exception leaves behind, keeps the invariant:
  the file's text is the header followed by the printed lines, and nothing is pending
  once a line has been written.
\<close>
theorem fl_run_keeps_inv: "fl_inv st \<Longrightarrow> fl_inv (final_state (fl_run evs st))"
proof (induction evs st rule: fl_run.induct)
  case (2 bs evs st)
  then show ?case by (simp add: fl_inv_buf)
next
  case (3 evs st)
  then show ?case
    using fl_iteration_inv [OF "3.prems"] by (auto split: sum.splits)
qed simp

theorem fl_run_keeps_inv_witness:
  "fl_inv (final_state (fl_run [Recv (bytes_of ''1,2''), Iter (), Recv [10, 0xFF, 10], Iter (), Iter ()]
     (fl_start [])))"
  using fl_run_keeps_inv [OF fl_start_inv [of "[]"]] .

text \<open>
  C10. Each line is written to the file verbatim, as the specification says, exactly
  when the decoded line neither starts nor ends with white space: the code writes the
  stripped line (unoflow.py lines 16 and 18).
\<close>
theorem fl_line_verbatim_iff:
  assumes "fl_buf st = l @ newline # rest" "newline \<notin> set l" "utf8_decode l = Some t"
  shows "fl_disk (final_state (fl_iteration st)) = fl_disk st @ fl_pending st @ t @ [10] \<longleftrightarrow> stripped t"
  using fl_iteration_line [OF assms] py_strip_id [of t]
  by (simp add: fl_log_lines_def fl_flush_def fl_write_def fl_print_def)

text \<open>An Arduino \<^verbatim>\<open>Serial.println\<close> ends its lines with CR LF: the carriage return
  is not written to the file.\<close>
theorem fl_line_verbatim_iff_witness:
  "fl_disk (final_state (fl_iteration ((fl_start [])\<lparr>fl_buf := bytes_of ''1,2.5,10'' @ [13, 10]\<rparr>)))
     \<noteq> csv_header @ ustr_of ''1,2.5,10'' @ [13, 10]"
proof -
  have b: "bytes_of ''1,2.5,10'' @ [13, 10] = map of_nat (ustr_of ''1,2.5,10'' @ [13]) @ newline # []"
    by (simp add: bytes_of_def ustr_of_def newline_def)
  show ?thesis
    using fl_line_verbatim_iff [of "(fl_start [])\<lparr>fl_buf := bytes_of ''1,2.5,10'' @ [13, 10]\<rparr>"
        "map of_nat (ustr_of ''1,2.5,10'' @ [13])" "[]" "ustr_of ''1,2.5,10'' @ [13]"]
    by (simp only: b, simp add: utf8_decode_ascii newline_notin_ascii fl_start_def fl_write_def)
      (simp add: ustr_of_def stripped_def is_py_space_def newline_def)
qed

text \<open>
  C11. An undecodable line ends the logger with \<^verbatim>\<open>UnicodeDecodeError\<close>, and the
  \<^verbatim>\<open>with\<close> block flushes what was written before: the file keeps everything
  written so far (the header included) and nothing is printed for the bad line.
\<close>
theorem fl_crash_flushes:
  assumes "fl_iteration st = Inl (e, st')"
  shows "e = UnicodeDecodeError \<and> fl_pending st' = [] \<and> fl_disk st' = fl_disk st @ fl_pending st \<and>
         fl_console st' = fl_console st"
  using assms fl_iteration_cases [of st] by (auto simp: fl_flush_def)

theorem fl_crash_flushes_witness:
  "fl_disk (final_state (fl_iteration ((fl_start [])\<lparr>fl_buf := [0xFF, 10]\<rparr>))) = csv_header"
proof -
  have it: "fl_iteration ((fl_start [])\<lparr>fl_buf := [0xFF, 10]\<rparr>) =
          Inl (UnicodeDecodeError, fl_flush ((fl_start [])\<lparr>fl_buf := []\<rparr>))"
    by (simp add: fl_iteration_def in_waiting_def ser_readline_def fl_serial_def readline_blocking_def
        newline_def utf8_lead_def)
  from fl_crash_flushes [OF it] it show ?thesis by (simp add: fl_start_def fl_write_def fl_flush_def)
qed

text \<open>
  C24. Lines that arrive together are all logged: when the buffer holds \<open>n\<close> complete
  lines (and possibly the start of another), the next \<open>n\<close> iterations read, print,
  write and flush each of them in order, and leave the incomplete rest in the buffer.
\<close>
theorem fl_burst_logged:
  assumes "fl_buf st = concat (map (\<lambda>l. l @ [newline]) ls) @ part"
    and "list_all2 (\<lambda>l t. newline \<notin> set l \<and> utf8_decode l = Some t) ls ts"
  shows "fl_run (replicate (length ls) (Iter ())) st =
           Inr (fl_log_lines (map py_strip ts) (st\<lparr>fl_buf := part\<rparr>))"
  using assms
proof (induction ls arbitrary: ts st)
  case Nil
  then show ?case by (cases st) (simp add: fl_log_lines_def)
next
  case (Cons l ls)
  obtain t ts' where ts: "ts = t # ts'" "newline \<notin> set l" "utf8_decode l = Some t"
    "list_all2 (\<lambda>l t. newline \<notin> set l \<and> utf8_decode l = Some t) ls ts'"
    using Cons.prems(2) by (cases ts) auto
  let ?rest = "concat (map (\<lambda>l. l @ [newline]) ls) @ part"
  let ?st = "fl_log_lines [py_strip t] (st\<lparr>fl_buf := ?rest\<rparr>)"
  have it: "fl_iteration st = Inr ?st"
    using fl_iteration_line [of st l ?rest t] Cons.prems(1) ts(2,3) by simp
  have b: "fl_buf ?st = ?rest"
    by (simp add: fl_log_lines_def fl_flush_def fl_write_def fl_print_def)
  have "fl_run (replicate (length (l # ls)) (Iter ())) st = fl_run (replicate (length ls) (Iter ())) ?st"
    using it by simp
  also have "\<dots> = Inr (fl_log_lines (map py_strip ts') (?st\<lparr>fl_buf := part\<rparr>))"
    by (rule Cons.IH [OF b ts(4)])
  also have "\<dots> = Inr (fl_log_lines (map py_strip ts) (st\<lparr>fl_buf := part\<rparr>))"
    using ts(1) by (simp add: fl_log_lines_buf fl_log_lines_Cons [of "py_strip t" "map py_strip ts'"])
  finally show ?case .
qed

text \<open>Two readings sent in one burst, with the start of a third: two iterations log both.\<close>
theorem fl_burst_logged_witness:
  "fl_buf ((fl_start [])\<lparr>fl_buf := bytes_of ''1,2.5,10'' @ [newline] @ bytes_of ''2,3.0,13'' @ [newline] @ bytes_of ''3,''\<rparr>) =
     concat (map (\<lambda>l. l @ [newline]) [bytes_of ''1,2.5,10'', bytes_of ''2,3.0,13'']) @ bytes_of ''3,'' \<and>
   list_all2 (\<lambda>l t. newline \<notin> set l \<and> utf8_decode l = Some t)
     [bytes_of ''1,2.5,10'', bytes_of ''2,3.0,13''] [ustr_of ''1,2.5,10'', ustr_of ''2,3.0,13''] \<and>
   fl_run [Iter (), Iter ()]
     ((fl_start [])\<lparr>fl_buf := bytes_of ''1,2.5,10'' @ [newline] @ bytes_of ''2,3.0,13'' @ [newline] @ bytes_of ''3,''\<rparr>) =
   Inr (fl_log_lines [ustr_of ''1,2.5,10'', ustr_of ''2,3.0,13''] ((fl_start [])\<lparr>fl_buf := bytes_of ''3,''\<rparr>))"
proof -
  have b: "bytes_of s = map of_nat (ustr_of s)" for s by (simp add: bytes_of_def ustr_of_def)
  have l2: "list_all2 (\<lambda>l t. newline \<notin> set l \<and> utf8_decode l = Some t)
     [bytes_of ''1,2.5,10'', bytes_of ''2,3.0,13''] [ustr_of ''1,2.5,10'', ustr_of ''2,3.0,13'']"
    by (simp add: b utf8_decode_ascii newline_notin_ascii) (simp add: ustr_of_def newline_def)
  have p: "map py_strip [ustr_of ''1,2.5,10'', ustr_of ''2,3.0,13''] = [ustr_of ''1,2.5,10'', ustr_of ''2,3.0,13'']"
    by (simp add: ustr_of_def py_strip_def is_py_space_def)
  let ?st = "(fl_start [])\<lparr>fl_buf := bytes_of ''1,2.5,10'' @ [newline] @ bytes_of ''2,3.0,13'' @ [newline] @ bytes_of ''3,''\<rparr>"
  have buf: "fl_buf ?st = concat (map (\<lambda>l. l @ [newline]) [bytes_of ''1,2.5,10'', bytes_of ''2,3.0,13'']) @ bytes_of ''3,''"
    by simp
  have rep: "replicate (length [bytes_of ''1,2.5,10'', bytes_of ''2,3.0,13'']) (Iter ()) = [Iter (), Iter ()]"
    by (simp add: numeral_2_eq_2)
  have upd: "?st\<lparr>fl_buf := bytes_of ''3,''\<rparr> = (fl_start [])\<lparr>fl_buf := bytes_of ''3,''\<rparr>" by simp
  have r: "fl_run (replicate (length [bytes_of ''1,2.5,10'', bytes_of ''2,3.0,13'']) (Iter ())) ?st =
      Inr (fl_log_lines (map py_strip [ustr_of ''1,2.5,10'', ustr_of ''2,3.0,13'']) (?st\<lparr>fl_buf := bytes_of ''3,''\<rparr>))"
    by (rule fl_burst_logged [OF buf l2])
  show ?thesis using buf l2 r [unfolded rep upd p] by blast
qed

end
