(* ===== verification/Console.thy ===== *)
theory Console
  imports Telegraf
begin

text \<open>
  The text the forwarder prints (serial_to_telegraf.py lines 19, 21 and 23). The
  Telegraf theory records each \<^verbatim>\<open>print\<close> as a structured \<open>tg_log\<close> entry;
  this theory renders the entries as the f-strings do. \<^verbatim>\<open>{data}\<close> is
  \<^verbatim>\<open>str(data)\<close>: the string itself for a JSON string, otherwise Python's
  \<^verbatim>\<open>repr\<close> (\<open>repr_json\<close>), which enters the interpreter's recursion check once per
  object (budget \<open>b\<close>, \<^verbatim>\<open>RecursionError\<close> as \<open>None\<close>) and refuses integers of more
  than 4300 digits (\<^verbatim>\<open>ValueError\<close>). Strings are written by CPython's
  \<^verbatim>\<open>unicode_repr\<close> (\<open>repr_str\<close>); which non-ASCII characters are printable comes from
  the interpreter's Unicode database and is the parameter \<open>printable\<close>
  (\<open>latin1_printable\<close> gives it below U+0100). The text of a
  \<^verbatim>\<open>RequestException\<close> is the parameter \<open>err\<close>.

  C26: a string's \<^verbatim>\<open>repr\<close> reads back as the string (\<open>literal_eval_str\<close> models
  Python's string literals). C27: no \<^verbatim>\<open>print\<close> of the forwarder raises when the
  budget at print time exceeds the decoder's. C28: for arrays of numbers the console
  shows the request body.
\<close>

section \<open>Python's repr\<close>

text \<open>The lower-case hex digits of \<open>c\<close>, exactly \<open>n\<close> of them (\<^verbatim>\<open>Py_hexdigits\<close>).\<close>
fun hex_fixed :: "nat \<Rightarrow> nat \<Rightarrow> ustr" where
  "hex_fixed 0 c = []"
| "hex_fixed (Suc n) c = hex_fixed n (c div 16) @ [hex_digit (c mod 16)]"

text \<open>\<^verbatim>\<open>unicode_repr\<close> quotes with \<open>'\<close>, or with \<open>"\<close> when the string holds a single quote and no double quote.\<close>
definition repr_quote :: "ustr \<Rightarrow> nat" where
  "repr_quote s = (if 0x27 \<in> set s \<and> quote_ch \<notin> set s then quote_ch else 0x27)"

text \<open>One character inside the quotes: the quote and the backslash escaped, \<open>\\t \\n \\r\<close>, other control characters and DEL as \<^verbatim>\<open>\\xHH\<close>, printable characters as themselves, the rest as \<^verbatim>\<open>\\xHH\<close>, \<^verbatim>\<open>\\uHHHH\<close> or \<^verbatim>\<open>\\UHHHHHHHH\<close>.\<close>
definition repr_char :: "(nat \<Rightarrow> bool) \<Rightarrow> nat \<Rightarrow> nat \<Rightarrow> ustr" where
  "repr_char printable q c =
     (if c = q \<or> c = backslash_ch then [backslash_ch, c]
      else if c = 9 then [backslash_ch, chr CHR ''t'']
      else if c = 10 then [backslash_ch, chr CHR ''n'']
      else if c = 13 then [backslash_ch, chr CHR ''r'']
      else if c < 0x20 \<or> c = 0x7F then backslash_ch # chr CHR ''x'' # hex_fixed 2 c
      else if c < 0x7F then [c]
      else if printable c then [c]
      else if c \<le> 0xFF then backslash_ch # chr CHR ''x'' # hex_fixed 2 c
      else if c \<le> 0xFFFF then backslash_ch # chr CHR ''u'' # hex_fixed 4 c
      else backslash_ch # chr CHR ''U'' # hex_fixed 8 c)"

definition repr_str :: "(nat \<Rightarrow> bool) \<Rightarrow> ustr \<Rightarrow> ustr" where
  "repr_str printable s = (let q = repr_quote s in q # concat (map (repr_char printable q) s) @ [q])"

text \<open>\<^verbatim>\<open>float.__repr__\<close>: as \<^verbatim>\<open>json.dumps\<close> writes finite floats; \<open>inf\<close> and \<open>nan\<close> otherwise.\<close>
fun repr_float :: "pyfloat \<Rightarrow> ustr" where
  "repr_float (FloatVal neg m e) = float_repr neg m e"
| "repr_float (FloatInf neg) = (if neg then ustr_of ''-inf'' else ustr_of ''inf'')"
| "repr_float FloatNaN = ustr_of ''nan''"

text \<open>\<^verbatim>\<open>repr\<close> of a parsed object: \<^verbatim>\<open>dict\<close> and \<^verbatim>\<open>list\<close> join their items with \<open>, \<close>; every object costs one level of the recursion budget.\<close>
fun repr_json :: "(nat \<Rightarrow> bool) \<Rightarrow> nat \<Rightarrow> json \<Rightarrow> ustr option"
and repr_items :: "(nat \<Rightarrow> bool) \<Rightarrow> nat \<Rightarrow> json list \<Rightarrow> ustr option"
and repr_pairs :: "(nat \<Rightarrow> bool) \<Rightarrow> nat \<Rightarrow> (ustr \<times> json) list \<Rightarrow> ustr option" where
  "repr_json p 0 v = None"
| "repr_json p (Suc b) PyNone = Some (ustr_of ''None'')"
| "repr_json p (Suc b) (PyBool x) = Some (if x then ustr_of ''True'' else ustr_of ''False'')"
| "repr_json p (Suc b) (PyInt i) =
     (if max_str_digits < length (nat_digits (nat \<bar>i\<bar>)) then None else Some (int_repr i))"
| "repr_json p (Suc b) (PyFloat x) = Some (repr_float x)"
| "repr_json p (Suc b) (PyStr s) = Some (repr_str p s)"
| "repr_json p (Suc b) (PyList xs) = map_option (\<lambda>t. chr CHR ''['' # t @ [chr CHR '']'']) (repr_items p b xs)"
| "repr_json p (Suc b) (PyDict ps) = map_option (\<lambda>t. chr CHR ''{'' # t @ [chr CHR ''}'']) (repr_pairs p b ps)"
| "repr_items p b [] = Some []"
| "repr_items p b (x # xs) =
     (case repr_json p b x of
        None \<Rightarrow> None
      | Some t \<Rightarrow> (case xs of [] \<Rightarrow> Some t | _ \<Rightarrow> map_option (\<lambda>u. t @ ustr_of '', '' @ u) (repr_items p b xs)))"
| "repr_pairs p b [] = Some []"
| "repr_pairs p b ((k, v) # ps) =
     (case repr_json p b v of
        None \<Rightarrow> None
      | Some t \<Rightarrow>
          let item = repr_str p k @ ustr_of '': '' @ t in
          (case ps of [] \<Rightarrow> Some item | _ \<Rightarrow> map_option (\<lambda>u. item @ ustr_of '', '' @ u) (repr_pairs p b ps)))"

text \<open>\<^verbatim>\<open>str(data)\<close>, what \<^verbatim>\<open>{data}\<close> in an f-string gives.\<close>
definition py_str :: "(nat \<Rightarrow> bool) \<Rightarrow> nat \<Rightarrow> json \<Rightarrow> ustr option" where
  "py_str p b v = (case v of PyStr s \<Rightarrow> Some s | _ \<Rightarrow> repr_json p b v)"

section \<open>The printed lines\<close>

text \<open>The three f-strings, lines 19, 21 and 23.\<close>
definition tg_log_text :: "(nat \<Rightarrow> bool) \<Rightarrow> nat \<Rightarrow> (request_error \<Rightarrow> ustr) \<Rightarrow> tg_log \<Rightarrow> ustr option" where
  "tg_log_text p b err m =
     (case m of
        Sent data code \<Rightarrow>
          map_option (\<lambda>d. ustr_of ''Sent: '' @ d @ ustr_of '', Telegraf response: '' @ nat_digits code)
            (py_str p b data)
      | Ignored line \<Rightarrow> Some (ustr_of ''Ignored invalid JSON: '' @ line)
      | HttpError e \<Rightarrow> Some (ustr_of ''HTTP error: '' @ err e))"

text \<open>What the console shows for the printed entries: each text followed by a newline.\<close>
primrec console_text :: "(nat \<Rightarrow> bool) \<Rightarrow> nat \<Rightarrow> (request_error \<Rightarrow> ustr) \<Rightarrow> tg_log list \<Rightarrow> ustr option" where
  "console_text p b err [] = Some []"
| "console_text p b err (m # ms) =
     (case tg_log_text p b err m of
        None \<Rightarrow> None
      | Some t \<Rightarrow> map_option (\<lambda>u. t @ [10] @ u) (console_text p b err ms))"

text \<open>\<^verbatim>\<open>Py_UNICODE_ISPRINTABLE\<close> below U+0100: the printable ASCII characters and Latin-1 from U+00A1 except the soft hyphen.\<close>
definition latin1_printable :: "nat \<Rightarrow> bool" where
  "latin1_printable c \<longleftrightarrow> (0x20 \<le> c \<and> c < 0x7F) \<or> (0xA1 \<le> c \<and> c \<le> 0xFF \<and> c \<noteq> 0xAD)"

section \<open>Python string literals\<close>

text \<open>A Python string literal, to read a \<^verbatim>\<open>repr\<close> back as \<^verbatim>\<open>ast.literal_eval\<close> does: \<open>n\<close> hex digits of an escape.\<close>
definition hex_n :: "nat \<Rightarrow> ustr \<Rightarrow> (nat \<times> ustr) option" where
  "hex_n n r = (if length r < n then None else map_option (\<lambda>v. (v, drop n r)) (hex_digits 0 (take n r)))"

text \<open>The escape after a backslash (octal and \<^verbatim>\<open>\\N{...}\<close> escapes are not modelled); an unknown escape keeps its backslash.\<close>
definition lit_escape :: "ustr \<Rightarrow> (ustr \<times> ustr) option" where
  "lit_escape r =
     (case r of
        [] \<Rightarrow> None
      | e # r' \<Rightarrow>
          if e = backslash_ch \<or> e = 0x27 \<or> e = quote_ch then Some ([e], r')
          else if e = chr CHR ''a'' then Some ([7], r')
          else if e = chr CHR ''b'' then Some ([8], r')
          else if e = chr CHR ''f'' then Some ([12], r')
          else if e = chr CHR ''n'' then Some ([10], r')
          else if e = chr CHR ''r'' then Some ([13], r')
          else if e = chr CHR ''t'' then Some ([9], r')
          else if e = chr CHR ''v'' then Some ([11], r')
          else if e = chr CHR ''x'' then map_option (\<lambda>(v, r''). ([v], r'')) (hex_n 2 r')
          else if e = chr CHR ''u'' then map_option (\<lambda>(v, r''). ([v], r'')) (hex_n 4 r')
          else if e = chr CHR ''U'' then
            (case hex_n 8 r' of
               Some (v, r'') \<Rightarrow> if v < 0x110000 then Some ([v], r'') else None
             | None \<Rightarrow> None)
          else Some ([backslash_ch, e], r'))"

lemma lit_escape_shorter: "lit_escape r = Some (u, r') \<Longrightarrow> length r' < length r"
  by (auto simp: lit_escape_def hex_n_def split: list.splits if_splits option.splits prod.splits)

text \<open>The body of a literal up to its closing quote \<open>q\<close>; a raw newline or NUL is an error.\<close>
function lit_body :: "nat \<Rightarrow> ustr \<Rightarrow> ustr \<Rightarrow> (ustr \<times> ustr) option" where
  "lit_body q acc [] = None"
| "lit_body q acc (c # r) =
     (if c = q then Some (acc, r)
      else if c = backslash_ch then
        (case lit_escape r of
           None \<Rightarrow> None
         | Some (u, r') \<Rightarrow> lit_body q (acc @ u) r')
      else if c = 10 \<or> c = 0 then None
      else lit_body q (acc @ [c]) r)"
  by pat_completeness auto
termination
  by (relation "measure (\<lambda>(q, acc, s). length s)") (auto dest: lit_escape_shorter)

definition literal_eval_str :: "ustr \<Rightarrow> ustr option" where
  "literal_eval_str t =
     (case t of
        [] \<Rightarrow> None
      | q # r \<Rightarrow>
          if q = 0x27 \<or> q = quote_ch then
            (case lit_body q [] r of Some (s, []) \<Rightarrow> Some s | _ \<Rightarrow> None)
          else None)"

section \<open>Predicates\<close>

text \<open>A console entry whose data is well formed for the decoder's budget.\<close>
definition log_wf :: "nat \<Rightarrow> tg_log \<Rightarrow> bool" where
  "log_wf depth m = (case m of Sent data code \<Rightarrow> json_wf depth data | _ \<Rightarrow> True)"

text \<open>Numbers and arrays of them: the values for which \<^verbatim>\<open>repr\<close> and \<^verbatim>\<open>json.dumps\<close> agree.\<close>
fun json_numeric :: "json \<Rightarrow> bool" where
  "json_numeric (PyInt i) = True"
| "json_numeric (PyFloat (FloatVal neg m e)) = True"
| "json_numeric (PyList xs) = list_all json_numeric xs"
| "json_numeric _ = False"

section \<open>Reading a repr back\<close>

lemma hex_digits_append:
  "hex_digits acc (xs @ ys) = (case hex_digits acc xs of None \<Rightarrow> None | Some a \<Rightarrow> hex_digits a ys)"
  by (induction acc xs rule: hex_digits.induct) (auto split: option.splits)

lemma length_hex_fixed [simp]: "length (hex_fixed n c) = n"
  by (induction n arbitrary: c) simp_all

lemma hex_digits_hex_fixed:
  "c < 16 ^ n \<Longrightarrow> hex_digits acc (hex_fixed n c) = Some (acc * 16 ^ n + c)"
proof (induction n arbitrary: c acc)
  case 0
  then show ?case by simp
next
  case (Suc n)
  have "c div 16 < 16 ^ n" using Suc.prems by (simp add: less_mult_imp_div_less mult.commute)
  with Suc.IH have "hex_digits acc (hex_fixed n (c div 16)) = Some (acc * 16 ^ n + c div 16)" .
  moreover have "hex_val (hex_digit (c mod 16)) = Some (c mod 16)" by (simp add: hex_val_hex_digit)
  ultimately show ?case by (simp add: hex_digits_append algebra_simps)
qed

lemma hex_n_hex_fixed: "c < 16 ^ n \<Longrightarrow> hex_n n (hex_fixed n c @ r) = Some (c, r)"
  using hex_digits_hex_fixed [of c n 0] by (simp add: hex_n_def)

lemma repr_char_decodes:
  assumes q: "q = 0x27 \<or> q = quote_ch" and c: "c < 0x110000"
  shows "lit_body q acc (repr_char p q c @ r) = lit_body q (acc @ [c]) r"
proof -
  have x: "hex_n 2 (hex_fixed 2 c @ r) = Some (c, r)" if "c < 0x100" using that by (simp add: hex_n_hex_fixed)
  have u: "hex_n 4 (hex_fixed 4 c @ r) = Some (c, r)" if "c < 0x10000" using that by (simp add: hex_n_hex_fixed)
  have U: "hex_n 8 (hex_fixed 8 c @ r) = Some (c, r)" using c by (simp add: hex_n_hex_fixed)
  show ?thesis
    using q c x u U by (auto simp: repr_char_def lit_escape_def)
qed

lemma lit_body_repr:
  "q = 0x27 \<or> q = quote_ch \<Longrightarrow> list_all (\<lambda>c. c < 0x110000) s \<Longrightarrow>
   lit_body q acc (concat (map (repr_char p q) s) @ q # rest) = Some (acc @ s, rest)"
  by (induction s arbitrary: acc) (simp_all add: repr_char_decodes)

lemma repr_str_literal_eval:
  assumes "list_all (\<lambda>c. c < 0x110000) s"
  shows "literal_eval_str (repr_str p s) = Some s"
proof -
  have q: "repr_quote s = 0x27 \<or> repr_quote s = quote_ch" by (simp add: repr_quote_def)
  show ?thesis
    using lit_body_repr [OF q assms, of "[]" p "[]"] q
    by (auto simp: repr_str_def literal_eval_str_def Let_def)
qed

text \<open>
  C26. A string inside the data (a dict key or value, a list element) is printed by
  line 19 as Python's \<^verbatim>\<open>repr\<close> of the string, whatever the printable table, and
  that text is a string literal that reads back as the same string
  (\<^verbatim>\<open>ast.literal_eval(repr(s)) == s\<close>), so the console never confuses two strings.
\<close>
theorem literal_eval_repr:
  assumes "list_all (\<lambda>c. c < 0x110000) s"
  shows "Option.bind (repr_json p (Suc b) (PyStr s)) literal_eval_str = Some s"
  using repr_str_literal_eval [OF assms] by simp

section \<open>Printing never raises\<close>

lemma repr_json_wf:
  "json_wf d v \<Longrightarrow> d < b \<Longrightarrow> repr_json p b v \<noteq> None"
  "items_wf d xs \<Longrightarrow> d < b \<Longrightarrow> repr_items p b xs \<noteq> None"
  "pairs_wf d ps \<Longrightarrow> d < b \<Longrightarrow> repr_pairs p b ps \<noteq> None"
proof (induction d v and d xs and d ps arbitrary: b and b and b rule: json_wf_items_wf_pairs_wf.induct)
  case (6 d xs)
  then obtain b' where b: "b = Suc b'" by (cases b) auto
  have "d - 1 < b'" using "6.prems" b by auto
  with "6.IH" "6.prems"(1) b show ?case by simp
next
  case (7 d ps)
  then obtain b' where b: "b = Suc b'" by (cases b) auto
  have "d - 1 < b'" using "7.prems" b by auto
  with "7.IH" "7.prems"(1) b show ?case by simp
next
  case (9 d x xs)
  then show ?case by (cases xs) (auto split: option.splits)
next
  case (11 d k v ps)
  then show ?case by (cases ps) (auto simp: Let_def split: option.splits)
qed (auto dest!: less_imp_Suc_add)

lemma forward_log_wf: "forward depth net raw = Inr (m, ps) \<Longrightarrow> log_wf depth m"
  by (auto simp: forward_def log_wf_def Let_def loads_line_wf
      split: option.splits sum.splits py_exc.splits http_result.splits)

lemma tg_iteration_log_wf:
  assumes "list_all (log_wf depth) (tg_console st)" "tg_iteration depth net st = Inr st'"
  shows "list_all (log_wf depth) (tg_console st')"
proof (cases "tg_buf st = []")
  case True
  with assms show ?thesis by (simp add: tg_iteration_def in_waiting_def)
next
  case False
  obtain raw rest where rl: "readline_timeout (tg_buf st) = (raw, rest)" by fastforce
  show ?thesis
  proof (cases "forward depth net raw")
    case (Inl e)
    with assms(2) False rl show ?thesis by (simp add: tg_iteration_forward)
  next
    case (Inr r)
    then obtain m ps where r: "forward depth net raw = Inr (m, ps)" by (cases r) auto
    with assms False rl forward_log_wf [OF r] show ?thesis
      by (auto simp: tg_iteration_forward tg_record_def)
  qed
qed

lemma tg_reachable_log_wf: "(tg_step depth)\<^sup>*\<^sup>* tg_init st \<Longrightarrow> list_all (log_wf depth) (tg_console st)"
proof (induction rule: rtranclp_induct)
  case base
  then show ?case by (simp add: tg_init_def)
next
  case (step st1 st2)
  from step.hyps(2) show ?case
  proof (cases rule: tg_step.cases)
    case (tg_recv bs)
    with step.IH show ?thesis by simp
  next
    case (tg_iter net)
    with step.IH show ?thesis by (rule tg_iteration_log_wf)
  qed
qed

lemma console_text_wf:
  "list_all (log_wf d) ms \<Longrightarrow> d < b \<Longrightarrow> console_text p b err ms \<noteq> None"
proof (induction ms)
  case (Cons m ms)
  have "tg_log_text p b err m \<noteq> None"
    using Cons.prems repr_json_wf(1) [of d _ b p]
    by (auto simp: tg_log_text_def log_wf_def py_str_def split: tg_log.splits json.splits)
  with Cons show ?case by (auto split: option.splits)
qed simp

text \<open>
  C27. In every state the forwarder reaches, every line it has printed could be
  rendered: with a recursion budget at print time above the decoder's, \<^verbatim>\<open>str(data)\<close>
  neither hits the recursion limit nor the integer digit limit, so the \<^verbatim>\<open>print\<close>
  calls inside the \<^verbatim>\<open>try\<close> block never raise.
\<close>
theorem tg_console_prints:
  assumes "(tg_step depth)\<^sup>*\<^sup>* tg_init st" "depth < b"
  shows "console_text p b err (tg_console st) \<noteq> None"
  using console_text_wf [OF tg_reachable_log_wf [OF assms(1)] assms(2)] .

section \<open>Console text and request body\<close>

text \<open>
  C28. For a number or an array of numbers the console shows exactly the request
  body: \<^verbatim>\<open>repr\<close> and \<^verbatim>\<open>json.dumps\<close> write numbers and arrays alike (objects
  differ: \<^verbatim>\<open>repr\<close> quotes keys with \<open>'\<close>).
\<close>
theorem repr_json_numeric:
  "json_wf d v \<Longrightarrow> d < b \<Longrightarrow> json_numeric v \<Longrightarrow> repr_json p b v = json_dumps v"
proof (induction v arbitrary: d b)
  case (PyFloat x)
  then show ?case by (cases x) (auto dest!: less_imp_Suc_add)
next
  case (PyList xs)
  then obtain b' where b: "b = Suc b'" by (cases b) auto
  have d: "d - 1 < b'" using PyList.prems b by auto
  have "repr_items p b' ys = dumps_items ys"
    if "set ys \<subseteq> set xs" "items_wf (d - 1) ys" "list_all json_numeric ys" for ys
    using that
  proof (induction ys)
    case (Cons y ys)
    have "repr_json p b' y = json_dumps y" using PyList.IH [of y "d - 1" b'] Cons.prems d by simp
    with Cons show ?case by (cases ys) (auto split: option.splits)
  qed simp
  then have "repr_items p b' xs = dumps_items xs" using PyList.prems b by simp
  with PyList.prems b show ?case by (cases "xs = []") (simp_all add: ustr_of_def list.case_eq_if)
qed (auto dest!: less_imp_Suc_add)

section \<open>Examples\<close>

lemma scenario_reachable:
  "(tg_step 100)\<^sup>*\<^sup>* tg_init
     (tg_init\<lparr>tg_console := [Sent (PyDict [(ustr_of ''flow'', PyFloat (FloatVal False 12 (-1)))]) 204],
              tg_posts := [(TELEGRAF_HTTP_URL, map of_nat (qtext ''{`flow`: 1.2}''))], tg_slept := 1\<rparr>)"
proof -
  let ?t = "qtext ''{`flow`:1.2}''"
  let ?v = "PyDict [(ustr_of ''flow'', PyFloat (FloatVal False 12 (-1)))]"
  let ?st1 = "tg_init\<lparr>tg_buf := map of_nat ?t @ [newline]\<rparr>"
  let ?st2 = "tg_init\<lparr>tg_console := [Sent ?v 204],
              tg_posts := [(TELEGRAF_HTTP_URL, map of_nat (qtext ''{`flow`: 1.2}''))], tg_slept := 1\<rparr>"
  have a: "is_ascii ?t" "10 \<notin> set ?t" by (simp_all add: qtext_def)
  have l: "json_loads 100 (py_strip ?t) = Inr ?v"
    by (simp add: json_eval py_strip_def is_py_space_def)
  have d: "json_dumps ?v = Some (qtext ''{`flow`: 1.2}'')"
    by (simp add: dumps_eval qtext_def Let_def)
  have "tg_step 100 tg_init (tg_init\<lparr>tg_buf := tg_buf tg_init @ (map of_nat ?t @ [newline])\<rparr>)"
    by (rule tg_recv)
  then have s1: "tg_step 100 tg_init ?st1" by (simp add: tg_init_def)
  have b0: "tg_buf ?st1 = map of_nat ?t @ newline # []" by simp
  have "tg_iteration 100 (HttpStatus 204) ?st1 = Inr ?st2"
    unfolding tg_iteration_line [OF b0 newline_notin_ascii [OF a] utf8_decode_ascii [OF a(1)]]
      forward_line [OF utf8_decode_ascii [OF a(1)]] l
    by (simp add: d request_body_eq tg_init_def tg_record_def del: json_dumps.simps)
  then have s2: "tg_step 100 ?st1 ?st2" by (rule tg_iter)
  show ?thesis using s1 s2 by simp
qed

text \<open>A string with both kinds of quote, a backslash, a Latin-1 letter and a line separator.\<close>
theorem literal_eval_repr_witness:
  "list_all (\<lambda>c. c < 0x110000) ([0x27, 0x22, 0x5C, 0xE9, 0x2028] @ ustr_of ''ok'') \<and>
   Option.bind (repr_json latin1_printable (Suc 0) (PyStr ([0x27, 0x22, 0x5C, 0xE9, 0x2028] @ ustr_of ''ok'')))
     literal_eval_str = Some ([0x27, 0x22, 0x5C, 0xE9, 0x2028] @ ustr_of ''ok'')"
  using literal_eval_repr [of "[0x27, 0x22, 0x5C, 0xE9, 0x2028] @ ustr_of ''ok''" latin1_printable 0]
  by (simp add: ustr_of_def)

theorem tg_console_prints_witness:
  "(tg_step 100)\<^sup>*\<^sup>* tg_init
     (tg_init\<lparr>tg_console := [Sent (PyDict [(ustr_of ''flow'', PyFloat (FloatVal False 12 (-1)))]) 204],
              tg_posts := [(TELEGRAF_HTTP_URL, map of_nat (qtext ''{`flow`: 1.2}''))], tg_slept := 1\<rparr>) \<and>
   (100::nat) < 101 \<and>
   console_text latin1_printable 101 (\<lambda>e. ustr_of ''error'')
     [Sent (PyDict [(ustr_of ''flow'', PyFloat (FloatVal False 12 (-1)))]) 204] \<noteq> None"
  using tg_console_prints [OF scenario_reachable, of 101 latin1_printable "\<lambda>e. ustr_of ''error''"]
    scenario_reachable
  by simp

theorem repr_json_numeric_witness:
  "json_wf 1 (PyList [PyInt 3, PyFloat (FloatVal False 12 (-1))]) \<and> (1::nat) < 2 \<and>
   json_numeric (PyList [PyInt 3, PyFloat (FloatVal False 12 (-1))]) \<and>
   repr_json latin1_printable 2 (PyList [PyInt 3, PyFloat (FloatVal False 12 (-1))]) =
     json_dumps (PyList [PyInt 3, PyFloat (FloatVal False 12 (-1))])"
proof -
  have w: "json_wf 1 (PyList [PyInt 3, PyFloat (FloatVal False 12 (-1))])"
    by (simp add: float_overflows_def float_underflows_def max_str_digits_def nat_digits.simps)
  show ?thesis using repr_json_numeric [OF w, of 2 latin1_printable] w by simp
qed

end
