(* ===== verification/Spec2Isabelle.thy ===== *)
theory Spec2Isabelle
  imports Telegraf FileLogger JsonRoundtrip Console
begin

text \<open>
  \<^bold>\<open>A verification library for src/UNOwatermonitoring.\<close>

  The repository holds two independent Python scripts that read newline-terminated
  readings from an Arduino over a serial port. serial_to_telegraf.py (the telemetry
  forwarder) parses each reading as JSON and POSTs it to a Telegraf HTTP listener;
  unoflow.py (the file logger) writes each reading to water_usage_log.csv and flushes.
  Both read with pyserial, decode with \<^verbatim>\<open>bytes.decode('utf-8')\<close> and trim with
  \<^verbatim>\<open>str.strip()\<close>; the forwarder also uses \<^verbatim>\<open>json.loads\<close> and
  \<^verbatim>\<open>requests.post(url, json=data)\<close>, which serialises with \<^verbatim>\<open>json.dumps\<close>.

  \<^bold>\<open>Theories.\<close>
  \<^item> Prelude: bytes (\<open>8 word\<close>), Python strings as code point lists (\<open>ustr\<close>), the
    exceptions that reach the scripts (\<open>py_exc\<close>), and \<open>'s outcome\<close>, the result of
    running script code: a final state, or an uncaught exception with the state it
    leaves.
  \<^item> Utf8: CPython's strict UTF-8 codec (\<open>utf8_decode\<close> for line 15 / line 16,
    \<open>utf8_encode\<close> for the request body). Both round trips are proved (C12, C13).
  \<^item> Serial: the driver's input buffer, \<^verbatim>\<open>in_waiting\<close>, the two behaviours of
    \<^verbatim>\<open>readline\<close> (with \<^verbatim>\<open>timeout=2\<close> it returns a partial line when no newline is
    buffered; without timeout it blocks), \<open>ser_readline\<close> choosing between them from
    the port settings, and \<^verbatim>\<open>str.strip\<close> with CPython's white space table
    (C15, C16). The environment is a list of events: \<open>Recv bs\<close> (the device sends
    bytes) and \<open>Iter r\<close> (the script runs one iteration of its loop, \<open>r\<close> being the
    network's answer to the forwarder's request).
  \<^item> Json: \<^verbatim>\<open>json.loads\<close> as CPython's C scanner implements it: strict strings
    with surrogate-pair joining, NaN/Infinity literals, duplicate keys by
    \<open>AList.update\<close>, the 4300-digit limit on integers (\<^verbatim>\<open>ValueError\<close>), nesting
    limited by a recursion budget (\<^verbatim>\<open>RecursionError\<close>), trailing "Extra data" and a
    leading BOM refused. Floats are exact decimals \<open>FloatVal neg m e\<close> (\<open>m\<close> without
    trailing zeros), with overflow to infinity from \<open>2^1024 - 2^970\<close> and
    underflow to zero below \<open>2^-1075\<close>. The scanner is fuelled; the fuel
    \<open>json_loads\<close> gives it, the input length plus one, is proved enough (C14).
  \<^item> JsonDump: \<^verbatim>\<open>json.dumps(data, allow_nan=False)\<close> with the default separators
    and \<^verbatim>\<open>ensure_ascii\<close>, \<^verbatim>\<open>float.__repr__\<close> and \<^verbatim>\<open>int.__repr__\<close>; its output is
    ASCII (C17).
  \<^item> JsonWf: \<open>json_wf b\<close>, the values \<^verbatim>\<open>json.loads\<close> returns with recursion
    budget \<open>b\<close>, and the proof, by induction on the scanner's fuel, that the decoder
    returns only such values on text of Unicode scalar values (C20, kind type).
  \<^item> JsonRoundtrip: \<^verbatim>\<open>json.loads\<close> inverts \<^verbatim>\<open>json.dumps\<close> on well-formed values
    (\<open>parse_dumps\<close>, by induction along the encoder's structure, and
    \<open>json_loads_dumps\<close>); with C20 this gives the round trip loads, dumps, loads (C19).
  \<^item> Telegraf: serial_to_telegraf.py. The state \<open>tg_state\<close> is the serial buffer,
    the console lines (\<open>tg_log\<close>, one constructor per \<^verbatim>\<open>print\<close>), the requests
    sent and the seconds slept. \<open>requests_post\<close> is line 18, with \<open>request_body\<close>
    the body \<^verbatim>\<open>requests\<close> builds (none for the reading \<open>null\<close>, whose request is
    sent with an empty body), \<open>tg_handle\<close> lines
    16--24, \<open>tg_iteration\<close> lines 14--24, \<open>tg_run\<close> the \<^verbatim>\<open>while True\<close> loop over
    events. \<open>forward\<close> is the abstract per-reading function (the specification's
    "pure function from raw text to a result"), and \<open>tg_run\<close> refines
    \<open>forward_run\<close> for line-at-a-time input (C4). Claims C1, C2, C7--C9 and
    C17 give each branch of an iteration and the body sent; C5 the loop invariant. \<open>tg_step\<close> is the
    loop as a transition system (device sends, iterations that do not raise); C22
    shows by rule induction that every body sent from a reachable state is empty or
    canonical JSON, C21 that Telegraf parses each body as the forwarder parsed the
    line (except the empty body of \<open>null\<close>, which it refuses), and C23 (progress)
    that the loop drains its buffer. \<open>tg_main\<close> is the program entry (lines 26--27
    call \<^verbatim>\<open>main\<close>); the lemma \<open>tg_reachable_iff_main\<close> shows that the reachable
    states of \<open>tg_step\<close> are exactly the states runs of \<open>tg_main\<close> end in, so
    C22 and C27 speak of the program's runs. C25 shows that lines arriving in a
    burst are each forwarded, in order, as \<open>forward_run\<close> does.
  \<^item> FileLogger: unoflow.py. The state \<open>fl_state\<close> has the serial buffer, the
    console, the file's text on disk and the text pending in the file object's
    buffer. \<open>fl_start\<close> is lines 5--11, \<open>fl_iteration\<close> lines 14--19, \<open>fl_run\<close> the
    loop; an exception leaves the \<^verbatim>\<open>with\<close> block, which flushes. C3 is the
    specification's file contract, C6 the invariant linking file and console, C10
    and C11 the stripping and the crash behaviour, C24 (progress) that lines arriving
    in one burst are all logged, one per iteration.
  \<^item> Console: the text the forwarder prints (lines 19, 21, 23). \<open>repr_json\<close> is
    \<^verbatim>\<open>str(data)\<close> for the decoded value (Python's \<^verbatim>\<open>repr\<close>: dicts and lists
    with \<open>', '\<close>, strings by \<open>repr_str\<close> with CPython's quote choice and escapes,
    \<^verbatim>\<open>True\<close>/\<^verbatim>\<open>None\<close>, the int digit limit and the recursion budget as
    \<open>None\<close>, that is an exception); \<open>tg_log_text\<close> renders one \<open>tg_log\<close> entry and
    \<open>console_text\<close> the whole console. C26 reads a string's repr back with Python's
    literal syntax (\<open>literal_eval_str\<close>, written here as the inverse), C27 shows that
    printing never raises in a reachable state, C28 that the printed text equals the
    request body for numbers and lists of numbers.
  \<^item> This theory: the comparison of the two scripts' serial reads (C18), the
    property that spans the two scripts.

  \<^bold>\<open>Bounds.\<close> The recursion budget of \<^verbatim>\<open>json.loads\<close> is a parameter \<open>depth\<close> of
  the forwarder (it depends on the interpreter's recursion limit and stack); the
  examples use 100. Printing has its own budget \<open>b\<close>, counted per value printed; C27
  assumes it exceeds the decoder's \<open>depth\<close> (both calls are made from \<^verbatim>\<open>main\<close> at
  the same stack depth, and \<open>repr_json\<close> spends one unit on every value, leaves
  included). The scanner's fuel is proved sufficient, so no property depends
  on it.

  \<^bold>\<open>Not modelled.\<close> Timing (\<^verbatim>\<open>time.sleep\<close> is counted, not timed; bytes that
  arrive during a read's timeout are \<open>Recv\<close> events before the read); the OS
  serial driver and device disconnection (no event models it; it would be one more
  uncaught exception); HTTP itself (the network's answer is an input of the
  iteration); the recursion limit of \<^verbatim>\<open>json.dumps\<close> inside \<^verbatim>\<open>requests.post\<close>
  (its \<^verbatim>\<open>RecursionError\<close> is not a \<^verbatim>\<open>RequestException\<close> and would end the
  process; the model's encoder has no budget, so a reading nested close to the
  decoder's limit is sent); request headers; in the console text, the Unicode database's printable set above U+00FF
  and the text of a \<^verbatim>\<open>RequestException\<close> (both parameters of Console) and
  stdout encoding errors; the file system's own errors (disk full); and KeyboardInterrupt. Float
  parsing keeps exact decimal values: rounding to 53 bits is not modelled, so two
  decimal texts of the same double are different values here.
\<close>

section \<open>Properties across components\<close>

text \<open>
  C18. The two scripts read the same readings whenever a whole line is buffered: the
  forwarder's read with timeout and the logger's blocking read return the same line
  and leave the same rest. They differ only on a buffer without newline, where the
  logger's read blocks and the forwarder's returns the partial line.
\<close>
theorem readers_agree:
  "(newline \<in> set buf \<longrightarrow> ser_readline tg_serial buf = ser_readline fl_serial buf \<and>
                            ser_readline fl_serial buf \<noteq> None) \<and>
   (newline \<notin> set buf \<longrightarrow> ser_readline fl_serial buf = None \<and>
                            ser_readline tg_serial buf = Some (buf, []))"
proof -
  have "ser_readline tg_serial buf = ser_readline fl_serial buf" if n: "newline \<in> set buf"
  proof -
    obtain l r where b: "buf = l @ newline # r" "newline \<notin> set l"
      using n by (metis in_set_conv_decomp_first)
    show ?thesis
      using b readline_timeout_line [OF b(2)] readline_blocking_line [OF b(2)]
      by (simp add: ser_readline_def tg_serial_def fl_serial_def)
  qed
  then show ?thesis
    using readline_timeout_partial [of buf] readline_blocking_None [of buf]
    by (auto simp: ser_readline_def tg_serial_def fl_serial_def)
qed

theorem readers_agree_witness:
  "ser_readline tg_serial [0x31, 10] = ser_readline fl_serial [0x31, 10] \<and>
   ser_readline fl_serial [0x31] = None \<and> ser_readline tg_serial [0x31] = Some ([0x31], [])"
  using readers_agree [of "[0x31, 10]"] readers_agree [of "[0x31]"] by (simp add: newline_def)

end
